theory Spec2Isabelle
  imports Main "HOL-Library.Word"
begin

unbundle bit_operations_syntax

section \<open>Shared types\<close>

type_synonym u8 = "8 word"
type_synonym u32 = "32 word"

text \<open>
  The return codes the two engines produce or pass on. The numeric values live in headers
  of the host (\<^verbatim>\<open>helper/log.h\<close>, \<^verbatim>\<open>jtag/jtag.h\<close>, \<^verbatim>\<open>target/target.h\<close>); the code only
  compares them with \<^verbatim>\<open>ERROR_OK\<close>, so they are kept as distinct constructors.
  \<open>ERROR_LOWLEVEL n\<close> stands for any other code a back-end may return.
\<close>

datatype retval = ERROR_OK | ERROR_FAIL | ERROR_JTAG_DEVICE_ERROR
  | ERROR_TARGET_RESOURCE_NOT_AVAILABLE | ERROR_LOWLEVEL nat

definition MIN_macro :: "int \<Rightarrow> int \<Rightarrow> int" where
  "MIN_macro a b = (if a < b then a else b)"

definition DIV_ROUND_UP :: "nat \<Rightarrow> nat \<Rightarrow> nat" where
  "DIV_ROUND_UP m n = (m + n - 1) div n"

text \<open>
  Reading \<open>n\<close> bytes at a pointer into a caller's array. A C read past the end of the array is
  undefined; the model reads zero bytes there.
\<close>

definition block :: "u8 list \<Rightarrow> nat \<Rightarrow> u8 list" where
  "block bs n = take n (bs @ replicate n 0)"

definition byte_at :: "u8 list \<Rightarrow> nat \<Rightarrow> u8" where
  "byte_at bs i = (if i < length bs then bs ! i else 0)"

text \<open>\<^verbatim>\<open>memcpy(&xs[i], data, length data)\<close> on an array held as a list.\<close>

definition store_at :: "'a list \<Rightarrow> nat \<Rightarrow> 'a list \<Rightarrow> 'a list" where
  "store_at xs i data = take i xs @ data @ drop (i + length data) xs"

section \<open>USB-Blaster JTAG engine (usb\_blaster.c)\<close>

subsection \<open>The low-level driver and the session\<close>

text \<open>
  \<^verbatim>\<open>struct ublast_lowlevel\<close> is the transport back-end (libftdi or ftd2xx), outside the
  driver. It is modelled by the answers it will still give: each \<^verbatim>\<open>write\<close> call takes the
  next pair (return code, number of bytes the device accepts), each \<^verbatim>\<open>read\<close> call the next
  pair (return code, bytes delivered); a call never transfers more than it was asked for.
  Once the answers are used up the back-end fails every call. \<open>write_calls\<close> records the
  byte block of every \<^verbatim>\<open>write\<close> call, in order.
\<close>

record ublast_lowlevel =
  open_answer :: retval
  close_answer :: retval
  write_answers :: "(retval \<times> nat) list"
  read_answers :: "(retval \<times> u8 list) list"
  write_calls :: "u8 list list"

datatype tap_state = TAP_DREXIT2 | TAP_DREXIT1 | TAP_DRSHIFT | TAP_DRPAUSE | TAP_IRSELECT
  | TAP_DRUPDATE | TAP_DRCAPTURE | TAP_DRSELECT | TAP_IREXIT2 | TAP_IREXIT1 | TAP_IRSHIFT
  | TAP_IRPAUSE | TAP_IDLE | TAP_IRUPDATE | TAP_IRCAPTURE | TAP_RESET

datatype scan_type = SCAN_IN | SCAN_OUT | SCAN_IO

text \<open>
  \<^verbatim>\<open>struct ublast_info\<close> (the global \<^verbatim>\<open>info\<close>), together with the TAP state that the JTAG
  layer records behind \<^verbatim>\<open>tap_get_state\<close>/\<^verbatim>\<open>tap_set_state\<close> (field \<open>tap\<close>).
\<close>

record ublast =
  pin6 :: int
  pin8 :: int
  tms :: int
  tdi :: int
  buf :: "u8 list"
  bufidx :: nat
  lowlevel_name :: "string option"
  drv :: "ublast_lowlevel option"
  tap :: tap_state

definition BUF_LEN :: nat where "BUF_LEN = 64"
definition NO_TAP_SHIFT :: int where "NO_TAP_SHIFT = 0"
definition TAP_SHIFT :: int where "TAP_SHIFT = 1"

definition TCK :: u8 where "TCK = push_bit 0 1"
definition TMS :: u8 where "TMS = push_bit 1 1"
definition NCE :: u8 where "NCE = push_bit 2 1"
definition NCS :: u8 where "NCS = push_bit 3 1"
definition TDI :: u8 where "TDI = push_bit 4 1"
definition LED :: u8 where "LED = push_bit 5 1"
definition READ :: u8 where "READ = push_bit 6 1"
definition SHMODE :: u8 where "SHMODE = push_bit 7 1"
definition READ_TDO :: u8 where "READ_TDO = push_bit 0 1"

definition drv_write :: "ublast_lowlevel \<Rightarrow> u8 list \<Rightarrow> retval \<times> nat \<times> ublast_lowlevel" where
  "drv_write d bytes =
     (case write_answers d of
        [] \<Rightarrow> (ERROR_JTAG_DEVICE_ERROR, 0, d\<lparr>write_calls := write_calls d @ [bytes]\<rparr>)
      | (r, k) # rest \<Rightarrow>
          (r, min k (length bytes),
           d\<lparr>write_answers := rest, write_calls := write_calls d @ [bytes]\<rparr>))"

definition drv_read :: "ublast_lowlevel \<Rightarrow> nat \<Rightarrow> retval \<times> u8 list \<times> ublast_lowlevel" where
  "drv_read d sz =
     (case read_answers d of
        [] \<Rightarrow> (ERROR_JTAG_DEVICE_ERROR, [], d)
      | (r, bs) # rest \<Rightarrow> (r, take sz bs, d\<lparr>read_answers := rest\<rparr>))"

text \<open>
  \<^verbatim>\<open>hexdump(buf, size)\<close> prints \<^verbatim>\<open>buf[0]\<close> to \<^verbatim>\<open>buf[size - 1]\<close> with two hexadecimal digits each.
  The buffer is a pointer that may be null (\<open>None\<close>). With a null buffer and a size other
  than 0 the first \<^verbatim>\<open>buf[i]\<close> dereferences the null pointer and the process dies there; the
  model gives \<open>None\<close>, as it does for \<^verbatim>\<open>exit(-1)\<close>.
\<close>

definition hex_digit :: "nat \<Rightarrow> char" where
  "hex_digit n = ''0123456789abcdef'' ! n"

definition hexdump :: "u8 list option \<Rightarrow> nat \<Rightarrow> string option" where
  "hexdump buffer sz =
     (case buffer of
        None \<Rightarrow> if sz = 0 then Some [] else None
      | Some bs \<Rightarrow>
          Some (concat (map (\<lambda>b. [hex_digit (unat b div 16), hex_digit (unat b mod 16)])
                         (block bs sz))))"

text \<open>
  \<^verbatim>\<open>ublast_buf_write(buf, size, &bytes_written)\<close>: the argument is the block of \<open>size\<close> bytes at
  \<open>buf\<close>. The C code dereferences \<^verbatim>\<open>info.drv\<close>; the engine runs only after
  \<^verbatim>\<open>ublast_init\<close> has registered a driver, and without one the model fails the call. The
  \<^verbatim>\<open>hexdump\<close> of this function and of \<^verbatim>\<open>ublast_buf_read\<close> reads an array of the driver (never
  a null pointer) and its string is only logged, so it is left out here.
\<close>

definition ublast_buf_write :: "u8 list \<Rightarrow> ublast \<Rightarrow> retval \<times> nat \<times> ublast" where
  "ublast_buf_write bytes s =
     (case drv s of
        None \<Rightarrow> (ERROR_JTAG_DEVICE_ERROR, 0, s)
      | Some d \<Rightarrow> (case drv_write d bytes of (ret, n, d') \<Rightarrow> (ret, n, s\<lparr>drv := Some d'\<rparr>)))"

definition ublast_buf_read :: "nat \<Rightarrow> ublast \<Rightarrow> retval \<times> u8 list \<times> ublast" where
  "ublast_buf_read sz s =
     (case drv s of
        None \<Rightarrow> (ERROR_JTAG_DEVICE_ERROR, [], s)
      | Some d \<Rightarrow> (case drv_read d sz of (ret, bs, d') \<Rightarrow> (ret, bs, s\<lparr>drv := Some d'\<rparr>)))"

definition nb_buf_remaining :: "ublast \<Rightarrow> int" where
  "nb_buf_remaining s = int BUF_LEN - int (bufidx s)"

text \<open>How many \<^verbatim>\<open>write\<close> answers the back-end still has (the flush loop consumes them).\<close>

definition answers_left :: "ublast \<Rightarrow> nat" where
  "answers_left s = (case drv s of None \<Rightarrow> 0 | Some d \<Rightarrow> length (write_answers d))"

lemma ublast_buf_write_answers:
  "ublast_buf_write bytes s = (ERROR_OK, n, s') \<Longrightarrow> answers_left s' < answers_left s"
  by (auto simp: ublast_buf_write_def drv_write_def answers_left_def
      split: option.splits list.splits prod.splits)

text \<open>
  The loop of \<^verbatim>\<open>ublast_flush_buffer\<close>: every round passes the first \<open>nb\<close> bytes of the
  buffer again (the pointer \<^verbatim>\<open>info.buf\<close> is not advanced).
\<close>

function flush_loop :: "retval \<Rightarrow> int \<Rightarrow> ublast \<Rightarrow> ublast" where
  "flush_loop ret nb s =
     (if ret = ERROR_OK \<and> nb > 0 then
        (case ublast_buf_write (take (nat nb) (buf s)) s of
           (ret', retlen, s') \<Rightarrow> flush_loop ret' (nb - int retlen) s')
      else s)"
  by pat_completeness auto
termination
  by (relation "measure (\<lambda>(ret, nb, s). if ret = ERROR_OK then Suc (answers_left s) else 0)")
     (auto dest: ublast_buf_write_answers [OF sym])

definition ublast_flush_buffer :: "ublast \<Rightarrow> ublast" where
  "ublast_flush_buffer s = (flush_loop ERROR_OK (int (bufidx s)) s)\<lparr>bufidx := 0\<rparr>"

definition ublast_queue_byte :: "u8 \<Rightarrow> ublast \<Rightarrow> ublast" where
  "ublast_queue_byte abyte s =
     (let s1 = (if nb_buf_remaining s < 1 then ublast_flush_buffer s else s);
          s2 = s1\<lparr>buf := (buf s1)[bufidx s1 := abyte], bufidx := bufidx s1 + 1\<rparr>
      in if nb_buf_remaining s2 = 0 then ublast_flush_buffer s2 else s2)"

lemma flush_loop_keeps:
  "bufidx (flush_loop ret nb s) = bufidx s \<and> buf (flush_loop ret nb s) = buf s
   \<and> tap (flush_loop ret nb s) = tap s \<and> tms (flush_loop ret nb s) = tms s
   \<and> tdi (flush_loop ret nb s) = tdi s \<and> pin6 (flush_loop ret nb s) = pin6 s
   \<and> pin8 (flush_loop ret nb s) = pin8 s"
proof (induction ret nb s rule: flush_loop.induct)
  case (1 ret nb s)
  show ?case
  proof (cases "ret = ERROR_OK \<and> nb > 0")
    case False
    then show ?thesis by auto
  next
    case True
    obtain ret' retlen s' where w: "ublast_buf_write (take (nat nb) (buf s)) s = (ret', retlen, s')"
      by (cases "ublast_buf_write (take (nat nb) (buf s)) s") auto
    have same: "bufidx s' = bufidx s \<and> buf s' = buf s \<and> tap s' = tap s \<and> tms s' = tms s
        \<and> tdi s' = tdi s \<and> pin6 s' = pin6 s \<and> pin8 s' = pin8 s"
      using w by (auto simp: ublast_buf_write_def split: option.splits prod.splits)
    have eq: "flush_loop ret nb s = flush_loop ret' (nb - int retlen) s'"
      using True w by simp
    from "1.IH" [OF True w [symmetric] refl] same show ?thesis
      unfolding eq by simp
  qed
qed

declare flush_loop.simps [simp del]

lemma flush_buffer_fields [simp]:
  "bufidx (ublast_flush_buffer s) = 0" "buf (ublast_flush_buffer s) = buf s"
  "tap (ublast_flush_buffer s) = tap s" "tms (ublast_flush_buffer s) = tms s"
  "tdi (ublast_flush_buffer s) = tdi s" "pin6 (ublast_flush_buffer s) = pin6 s"
  "pin8 (ublast_flush_buffer s) = pin8 s"
  by (simp_all add: ublast_flush_buffer_def flush_loop_keeps)

subsection \<open>Bit-bang codec\<close>

definition ublast_reset :: "int \<Rightarrow> int \<Rightarrow> ublast \<Rightarrow> ublast" where
  "ublast_reset trst srst s = (if trst = 1 then s\<lparr>tap := TAP_RESET\<rparr> else s)"

definition ublast_build_out :: "scan_type \<Rightarrow> ublast \<Rightarrow> u8" where
  "ublast_build_out type s =
     (if tms s \<noteq> 0 then TMS else 0) OR (if pin6 s \<noteq> 0 then NCE else 0)
     OR (if pin8 s \<noteq> 0 then NCS else 0) OR (if tdi s \<noteq> 0 then TDI else 0) OR LED
     OR (if type = SCAN_IN \<or> type = SCAN_IO then READ else 0)"

definition ublast_clock_tms :: "int \<Rightarrow> ublast \<Rightarrow> ublast" where
  "ublast_clock_tms t s =
     (let s1 = s\<lparr>tms := (if t \<noteq> 0 then 1 else 0), tdi := 0\<rparr>;
          out = ublast_build_out SCAN_OUT s1
      in ublast_queue_byte (out OR TCK) (ublast_queue_byte out s1))"

definition ublast_idle_clock :: "ublast \<Rightarrow> ublast" where
  "ublast_idle_clock s = ublast_queue_byte (ublast_build_out SCAN_OUT s) s"

definition ublast_clock_tdi :: "int \<Rightarrow> scan_type \<Rightarrow> ublast \<Rightarrow> ublast" where
  "ublast_clock_tdi d type s =
     (let s1 = s\<lparr>tdi := (if d \<noteq> 0 then 1 else 0)\<rparr>;
          s2 = ublast_queue_byte (ublast_build_out SCAN_OUT s1) s1
      in ublast_queue_byte (ublast_build_out type s2 OR TCK) s2)"

definition ublast_clock_tdi_flip_tms :: "int \<Rightarrow> scan_type \<Rightarrow> ublast \<Rightarrow> ublast" where
  "ublast_clock_tdi_flip_tms d type s =
     (let s1 = s\<lparr>tdi := (if d \<noteq> 0 then 1 else 0), tms := (if tms s = 0 then 1 else 0)\<rparr>;
          s2 = ublast_queue_byte (ublast_build_out SCAN_OUT s1) s1;
          s3 = ublast_queue_byte (ublast_build_out type s2 OR TCK) s2
      in ublast_queue_byte (ublast_build_out SCAN_OUT s3) s3)"

text \<open>
  \<^verbatim>\<open>ublast_queue_bytes\<close>: \<open>None\<close> is the end of the process, either by the \<^verbatim>\<open>exit(-1)\<close> of the
  overflow check or because a negative length reaches \<^verbatim>\<open>memcpy\<close>/\<^verbatim>\<open>memset\<close>.
\<close>

definition ublast_queue_bytes :: "u8 list option \<Rightarrow> int \<Rightarrow> ublast \<Rightarrow> ublast option" where
  "ublast_queue_bytes bytes nb_bytes s =
     (if int (bufidx s) + nb_bytes > int BUF_LEN then None
      else if nb_bytes < 0 then None
      else
        let data = (case bytes of Some bs \<Rightarrow> block bs (nat nb_bytes)
                    | None \<Rightarrow> replicate (nat nb_bytes) 0);
            s1 = s\<lparr>buf := store_at (buf s) (bufidx s) data, bufidx := bufidx s + nat nb_bytes\<rparr>
        in Some (if nb_buf_remaining s1 = 0 then ublast_flush_buffer s1 else s1))"

subsection \<open>TAP driver\<close>

text \<open>
  The JTAG layer of the host, outside the driver: the TAP transition oracle
  (\<^verbatim>\<open>tap_state_transition\<close>, \<^verbatim>\<open>tap_get_tms_path\<close>, \<^verbatim>\<open>tap_get_tms_path_len\<close>) and
  \<^verbatim>\<open>jtag_read_buffer\<close>, which hands the captured bits back to the command's fields and
  reports a return code.
\<close>

record scan_command =
  ir_scan :: bool
  direction :: scan_type
  num_bits :: nat
  payload :: "u8 list option"
  end_state :: tap_state

record jtag_host =
  tap_state_transition :: "tap_state \<Rightarrow> bool \<Rightarrow> tap_state"
  tap_get_tms_path :: "tap_state \<Rightarrow> tap_state \<Rightarrow> u8"
  tap_get_tms_path_len :: "tap_state \<Rightarrow> tap_state \<Rightarrow> int"
  jtag_read_buffer :: "u8 list option \<Rightarrow> scan_command \<Rightarrow> retval"

text \<open>
  Modelled from the spec: \<^verbatim>\<open>struct scan_command\<close> and the helpers \<^verbatim>\<open>jtag_scan_type\<close> and
  \<^verbatim>\<open>jtag_build_buffer\<close> of \<^verbatim>\<open>jtag/commands.h\<close> are not part of the sources. The scan
  command carries a direction, the IR-versus-DR flag, the payload bit length, the payload
  buffer (absent: clock zeros) and the end state.
\<close>

definition jtag_scan_type :: "scan_command \<Rightarrow> scan_type" where
  "jtag_scan_type cmd = direction cmd"

definition jtag_build_buffer :: "scan_command \<Rightarrow> nat \<times> u8 list option" where
  "jtag_build_buffer cmd = (num_bits cmd, payload cmd)"

definition ublast_tms_seq :: "u8 list \<Rightarrow> int \<Rightarrow> ublast \<Rightarrow> ublast" where
  "ublast_tms_seq bits nb_bits s =
     ublast_idle_clock
       (fold (\<lambda>i. ublast_clock_tms (uint (drop_bit (i mod 8) (byte_at bits (i div 8)) AND 1)))
          [0..<nat nb_bits] s)"

definition ublast_tms :: "u8 list \<Rightarrow> int \<Rightarrow> ublast \<Rightarrow> ublast" where
  "ublast_tms bits nb_bits s = ublast_tms_seq bits nb_bits s"

definition ublast_path_move :: "jtag_host \<Rightarrow> tap_state list \<Rightarrow> ublast \<Rightarrow> ublast" where
  "ublast_path_move host path s =
     ublast_idle_clock
       (fold (\<lambda>p s0.
           let s1 = (if tap_state_transition host (tap s0) False = p
                     then ublast_clock_tms 0 s0 else s0);
               s2 = (if tap_state_transition host (tap s1) True = p
                     then ublast_clock_tms 1 s1 else s1)
           in s2\<lparr>tap := p\<rparr>) path s)"

definition ublast_state_move :: "jtag_host \<Rightarrow> tap_state \<Rightarrow> ublast \<Rightarrow> ublast" where
  "ublast_state_move host state s =
     (if tap s = state then s
      else
        let tms_scan = tap_get_tms_path host (tap s) state;
            tms_len = tap_get_tms_path_len host (tap s) state
        in (ublast_tms_seq [tms_scan] tms_len s)\<lparr>tap := state\<rparr>)"

subsection \<open>TDO capture\<close>

definition reads_left :: "ublast \<Rightarrow> nat" where
  "reads_left s = (case drv s of None \<Rightarrow> 0 | Some d \<Rightarrow> length (read_answers d))"

lemma ublast_buf_read_answers:
  "ublast_buf_read sz s = (ERROR_OK, bs, s') \<Longrightarrow> reads_left s' < reads_left s"
  by (auto simp: ublast_buf_read_def drv_read_def reads_left_def
      split: option.splits list.splits prod.splits)

text \<open>
  The loop of \<^verbatim>\<open>ublast_read_byteshifted_tdos\<close>; \<open>off\<close> is where the pointer \<^verbatim>\<open>buf\<close> points
  into the array \<open>tdos\<close> (every round stores at the same place).
\<close>

function read_loop :: "retval \<Rightarrow> int \<Rightarrow> nat \<Rightarrow> u8 list \<Rightarrow> ublast \<Rightarrow> retval \<times> u8 list \<times> ublast" where
  "read_loop ret nb_bytes off tdos s =
     (if ret = ERROR_OK \<and> nb_bytes > 0 then
        (case ublast_buf_read (nat nb_bytes) s of
           (ret', data, s') \<Rightarrow>
             read_loop ret' (nb_bytes - int (length data)) off (store_at tdos off data) s')
      else (ret, tdos, s))"
  by pat_completeness auto
termination
  by (relation "measure (\<lambda>(ret, nb, off, tdos, s). if ret = ERROR_OK then Suc (reads_left s) else 0)")
     (auto dest: ublast_buf_read_answers [OF sym])

definition ublast_read_byteshifted_tdos ::
  "nat \<Rightarrow> int \<Rightarrow> u8 list \<Rightarrow> ublast \<Rightarrow> retval \<times> u8 list \<times> ublast" where
  "ublast_read_byteshifted_tdos off nb_bytes tdos s =
     read_loop ERROR_OK nb_bytes off tdos (ublast_flush_buffer s)"

text \<open>
  \<^verbatim>\<open>ublast_read_bitbang_tdos\<close>: one read of \<open>nb_bits\<close> bytes into the local \<^verbatim>\<open>tmp[8]\<close>, then
  bit \<open>i\<close> of the byte at \<open>off\<close> is set or cleared from bit 0 of \<^verbatim>\<open>tmp[i]\<close>. The bytes of
  \<^verbatim>\<open>tmp\<close> that a short read leaves unwritten are indeterminate in C; the model reads them
  as zero.
\<close>

definition ublast_read_bitbang_tdos ::
  "nat \<Rightarrow> int \<Rightarrow> u8 list \<Rightarrow> ublast \<Rightarrow> retval \<times> u8 list \<times> ublast" where
  "ublast_read_bitbang_tdos off nb_bits tdos s =
     (case ublast_buf_read (nat nb_bits) (ublast_flush_buffer s) of
        (ret, tmp, s') \<Rightarrow>
          (ret,
           (if ret = ERROR_OK then
              tdos[off := fold (\<lambda>i b. if byte_at tmp i AND READ_TDO \<noteq> 0
                                       then b OR push_bit i 1 else b AND NOT (push_bit i 1))
                             [0..<nat nb_bits] (byte_at tdos off)]
            else tdos),
           s'))"

subsection \<open>The shift algorithm\<close>

text \<open>
  The first lines of \<^verbatim>\<open>ublast_queue_tdi\<close>: \<open>nb8\<close> bytes go out in byte-shift mode and \<open>nb1\<close>
  bits in bit-bang mode. The bit count is never negative.
\<close>

definition tdi_split :: "nat \<Rightarrow> nat \<times> nat" where
  "tdi_split nb_bits =
     (let nb8 = nb_bits div 8; nb1 = nb_bits mod 8
      in if nb8 > 0 \<and> nb1 = 0 then (nb8 - 1, 8) else (nb8, nb1))"

text \<open>
  One round of the byte-shift loop of \<^verbatim>\<open>ublast_queue_tdi\<close>, at loop index \<open>i\<close>: the header,
  the payload and the read-back. The result carries \<open>ntrans\<close> (the variable \<^verbatim>\<open>trans\<close>), by which the loop advances.
\<close>

definition tdi_burst ::
  "u8 list option \<Rightarrow> bool \<Rightarrow> nat \<Rightarrow> int \<Rightarrow> u8 list \<Rightarrow> ublast \<Rightarrow> (int \<times> u8 list \<times> ublast) option" where
  "tdi_burst bits read_tdos nb8 i tdos s =
     (let nbfree = nb_buf_remaining s;
          ntrans = MIN_macro (nbfree - 1) (int nb8 - i);
          s1 = (if read_tdos then ublast_queue_byte (SHMODE OR READ OR word_of_int ntrans) s
                else ublast_queue_byte (SHMODE OR word_of_int ntrans) s)
      in case (case bits of Some bs \<Rightarrow> ublast_queue_bytes (Some (drop (nat i) bs)) ntrans s1
               | None \<Rightarrow> ublast_queue_bytes (Some (replicate BUF_LEN 0)) ntrans s1) of
           None \<Rightarrow> None
         | Some s2 \<Rightarrow>
             if read_tdos then
               (case ublast_read_byteshifted_tdos (nat i) ntrans tdos s2 of
                  (ret, tdos', s3) \<Rightarrow> Some (ntrans, tdos', s3))
             else Some (ntrans, tdos, s2))"

lemma read_loop_keeps:
  "read_loop ret nb off tdos s = (ret', tdos', s') \<Longrightarrow>
   bufidx s' = bufidx s \<and> buf s' = buf s \<and> tap s' = tap s \<and> tms s' = tms s
   \<and> tdi s' = tdi s \<and> pin6 s' = pin6 s \<and> pin8 s' = pin8 s
   \<and> (\<exists>d. drv s = Some d) = (\<exists>d. drv s' = Some d)"
proof (induction ret nb off tdos s rule: read_loop.induct)
  case (1 ret nb off tdos s)
  show ?case
  proof (cases "ret = ERROR_OK \<and> nb > 0")
    case False
    with "1.prems" show ?thesis by auto
  next
    case True
    obtain r data s1 where rd: "ublast_buf_read (nat nb) s = (r, data, s1)"
      by (cases "ublast_buf_read (nat nb) s") auto
    have same: "bufidx s1 = bufidx s \<and> buf s1 = buf s \<and> tap s1 = tap s \<and> tms s1 = tms s
        \<and> tdi s1 = tdi s \<and> pin6 s1 = pin6 s \<and> pin8 s1 = pin8 s
        \<and> (\<exists>d. drv s = Some d) = (\<exists>d. drv s1 = Some d)"
      using rd by (auto simp: ublast_buf_read_def split: option.splits prod.splits)
    have "read_loop r (nb - int (length data)) off (store_at tdos off data) s1 = (ret', tdos', s')"
      using "1.prems" True rd by simp
    from "1.IH" [OF True rd [symmetric] refl this] same show ?thesis by simp
  qed
qed

declare read_loop.simps [simp del]

lemma queue_byte_bufidx:
  "bufidx (ublast_queue_byte b s) =
     (if 64 \<le> bufidx s then 1 else if bufidx s = 63 then 0 else bufidx s + 1)"
  by (simp add: ublast_queue_byte_def nb_buf_remaining_def BUF_LEN_def Let_def)

lemma queue_bytes_bufidx:
  "ublast_queue_bytes bytes n s = Some s' \<Longrightarrow>
   0 \<le> n \<and> int (bufidx s) + n \<le> 64
   \<and> bufidx s' = (if int (bufidx s) + n = 64 then 0 else bufidx s + nat n)"
  by (auto simp: ublast_queue_bytes_def nb_buf_remaining_def BUF_LEN_def Let_def
      split: if_splits)

lemma tdi_burst_progress:
  assumes "tdi_burst bits rd nb8 i tdos s = Some (ntrans, tdos', s')" and "i < int nb8"
  shows "0 < ntrans \<or> (ntrans = 0 \<and> bufidx s = 63 \<and> bufidx s' = 0)"
proof -
  define t where "t = MIN_macro (nb_buf_remaining s - 1) (int nb8 - i)"
  define s1 where "s1 = (if rd then ublast_queue_byte (SHMODE OR READ OR word_of_int t) s
                else ublast_queue_byte (SHMODE OR word_of_int t) s)"
  define q where "q = (case bits of Some bs \<Rightarrow> ublast_queue_bytes (Some (drop (nat i) bs)) t s1
               | None \<Rightarrow> ublast_queue_bytes (Some (replicate BUF_LEN 0)) t s1)"
  from assms(1) obtain s2 where q: "q = Some s2"
    and fin: "(if rd then (case ublast_read_byteshifted_tdos (nat i) t tdos s2 of
                  (ret, tdos', s3) \<Rightarrow> Some (t, tdos', s3)) else Some (t, tdos, s2))
              = Some (ntrans, tdos', s')"
    unfolding tdi_burst_def Let_def t_def [symmetric] s1_def [symmetric] q_def [symmetric]
    by (auto split: option.splits)
  from q obtain bytes where qb: "ublast_queue_bytes bytes t s1 = Some s2"
    unfolding q_def by (auto split: option.splits)
  have tt: "ntrans = t" using fin by (auto split: if_splits prod.splits)
  have b1: "bufidx s1 = (if 64 \<le> bufidx s then 1 else if bufidx s = 63 then 0 else bufidx s + 1)"
    unfolding s1_def by (simp add: queue_byte_bufidx)
  from queue_bytes_bufidx [OF qb] have t0: "0 \<le> t"
    and b2: "bufidx s2 = (if int (bufidx s1) + t = 64 then 0 else bufidx s1 + nat t)"
    by auto
  have b3: "bufidx s' = (if rd then 0 else bufidx s2)"
  proof (cases rd)
    case False
    with fin show ?thesis by simp
  next
    case True
    with fin obtain ret where
      "read_loop ERROR_OK t (nat i) tdos (ublast_flush_buffer s2) = (ret, tdos', s')"
      by (auto simp: ublast_read_byteshifted_tdos_def split: prod.splits)
    from read_loop_keeps [OF this] True show ?thesis by simp
  qed
  show ?thesis
  proof (cases "0 < t")
    case True
    with tt show ?thesis by simp
  next
    case False
    with t0 have z: "t = 0" by simp
    with assms(2) have "nb_buf_remaining s - 1 = 0"
      unfolding t_def MIN_macro_def by (auto split: if_splits)
    then have "bufidx s = 63" by (simp add: nb_buf_remaining_def BUF_LEN_def)
    with b1 b2 b3 z tt show ?thesis by simp
  qed
qed

text \<open>
  The byte-shift loop \<^verbatim>\<open>for (i = 0; i < nb8; i += trans)\<close> and the bit-bang loop of
  \<^verbatim>\<open>ublast_queue_tdi\<close>.
\<close>

function tdi_byteshift_loop ::
  "u8 list option \<Rightarrow> bool \<Rightarrow> nat \<Rightarrow> int \<Rightarrow> u8 list \<Rightarrow> ublast \<Rightarrow> (u8 list \<times> ublast) option" where
  "tdi_byteshift_loop bits read_tdos nb8 i tdos s =
     (if i < int nb8 then
        (case tdi_burst bits read_tdos nb8 i tdos s of
           None \<Rightarrow> None
         | Some (ntrans, tdos', s') \<Rightarrow> tdi_byteshift_loop bits read_tdos nb8 (i + ntrans) tdos' s')
      else Some (tdos, s))"
  by pat_completeness auto
termination
proof (relation "measures [\<lambda>(bits, rd, nb8, i, tdos, s). nat (int nb8 - i),
                           \<lambda>(bits, rd, nb8, i, tdos, s). if bufidx s = 63 then 1 else 0]",
       goal_cases)
  case 1
  show ?case by simp
next
  case (2 bits rd nb8 i tdos s x2 ntrans y tdos' s')
  then have b: "tdi_burst bits rd nb8 i tdos s = Some (ntrans, tdos', s')" by simp
  from 2 have lt: "i < int nb8" by simp
  from tdi_burst_progress [OF b lt] lt show ?case by auto
qed

definition tdi_bitbang_loop :: "u8 list option \<Rightarrow> nat \<Rightarrow> nat \<Rightarrow> scan_type \<Rightarrow> int \<Rightarrow> ublast \<Rightarrow> ublast" where
  "tdi_bitbang_loop bits nb8 nb1 scan tap_shift s =
     fold (\<lambda>i s0.
         let d = (case bits of Some bs \<Rightarrow> uint (byte_at bs (nb8 + i div 8) AND push_bit i 1)
                  | None \<Rightarrow> 0)
         in if tap_shift \<noteq> 0 \<and> bits \<noteq> None \<and> int i = int nb1 - 1
            then ublast_clock_tdi_flip_tms d scan s0 else ublast_clock_tdi d scan s0)
       [0..<nb1] s"

definition ublast_queue_tdi ::
  "u8 list option \<Rightarrow> nat \<Rightarrow> scan_type \<Rightarrow> int \<Rightarrow> ublast \<Rightarrow> (u8 list option \<times> ublast) option" where
  "ublast_queue_tdi bits nb_bits scan tap_shift s =
     (let nb8 = fst (tdi_split nb_bits); nb1 = snd (tdi_split nb_bits);
          tdos0 = replicate (nb_bits div 8 + 1) (0 :: u8);
          read_tdos = (scan = SCAN_IN \<or> scan = SCAN_IO)
      in case tdi_byteshift_loop bits read_tdos nb8 0 tdos0 s of
           None \<Rightarrow> None
         | Some (tdos1, s1) \<Rightarrow>
             let s2 = tdi_bitbang_loop bits nb8 nb1 scan tap_shift s1;
                 (tdos3, s3) = (if nb1 \<noteq> 0 \<and> read_tdos
                                then snd (ublast_read_bitbang_tdos nb8 (int nb1) tdos1 s2)
                                else (tdos1, s2));
                 bits' = (case bits of
                            Some bs \<Rightarrow> Some (store_at bs 0 (take (DIV_ROUND_UP nb_bits 8) tdos3))
                          | None \<Rightarrow> None)
             in Some (bits', ublast_idle_clock s3))"

declare tdi_byteshift_loop.simps [simp del]

subsection \<open>Commands\<close>

definition ublast_runtest :: "jtag_host \<Rightarrow> nat \<Rightarrow> tap_state \<Rightarrow> ublast \<Rightarrow> ublast option" where
  "ublast_runtest host cycles state s =
     (case ublast_queue_tdi None cycles SCAN_OUT TAP_SHIFT (ublast_state_move host TAP_IDLE s) of
        None \<Rightarrow> None
      | Some (b, s1) \<Rightarrow> Some (ublast_state_move host state s1))"

definition ublast_stableclocks :: "nat \<Rightarrow> ublast \<Rightarrow> ublast option" where
  "ublast_stableclocks cycles s =
     (case ublast_queue_tdi None cycles SCAN_OUT TAP_SHIFT s of
        None \<Rightarrow> None
      | Some (b, s1) \<Rightarrow> Some s1)"

text \<open>
  \<^verbatim>\<open>ublast_scan\<close>. The result is the return code, the scan buffer as it is handed to
  \<^verbatim>\<open>jtag_read_buffer\<close>, and the session. The buffer is dumped for the log before it is
  shifted, whether or not logging is on: \<^verbatim>\<open>log_buf = hexdump(buf, DIV_ROUND_UP(scan_bits, 8))\<close>.
  The string is only logged and freed, but the dump reads the buffer, so a scan without a
  buffer and with at least one bit dies there.
\<close>

definition ublast_scan ::
  "jtag_host \<Rightarrow> scan_command \<Rightarrow> ublast \<Rightarrow> (retval \<times> u8 list option \<times> ublast) option" where
  "ublast_scan host cmd s =
     (let type = jtag_scan_type cmd;
          (scan_bits, buffer) = jtag_build_buffer cmd;
          s1 = (if ir_scan cmd then ublast_state_move host TAP_IRSHIFT s
                else ublast_state_move host TAP_DRSHIFT s)
      in case hexdump buffer (DIV_ROUND_UP scan_bits 8) of
           None \<Rightarrow> None
         | Some log_buf \<Rightarrow>
            (case (if end_state cmd = TAP_DRSHIFT
                   then ublast_queue_tdi buffer scan_bits type NO_TAP_SHIFT s1
                   else ublast_queue_tdi buffer scan_bits type TAP_SHIFT s1) of
               None \<Rightarrow> None
             | Some (buffer', s2) \<Rightarrow>
                 let s3 = (if end_state cmd \<noteq> TAP_DRSHIFT then
                             (let s' = ublast_clock_tms 0 s2
                              in if ir_scan cmd then s'\<lparr>tap := TAP_IRPAUSE\<rparr>
                                 else s'\<lparr>tap := TAP_DRPAUSE\<rparr>)
                           else s2);
                     ret = jtag_read_buffer host buffer' cmd;
                     s4 = (if end_state cmd \<noteq> TAP_DRSHIFT
                           then ublast_state_move host (end_state cmd) s3 else s3)
                 in Some (ret, buffer', s4)))"

datatype jtag_command =
    JTAG_RESET int int
  | JTAG_RUNTEST nat tap_state
  | JTAG_STABLECLOCKS nat
  | JTAG_TLR_RESET tap_state
  | JTAG_PATHMOVE "tap_state list"
  | JTAG_TMS "u8 list" int
  | JTAG_SLEEP int
  | JTAG_SCAN scan_command

text \<open>The body of the \<^verbatim>\<open>switch\<close> of \<^verbatim>\<open>ublast_execute_queue\<close>, with the value of \<^verbatim>\<open>ret\<close> after it.\<close>

fun execute_command :: "jtag_host \<Rightarrow> jtag_command \<Rightarrow> retval \<Rightarrow> ublast \<Rightarrow> (retval \<times> ublast) option" where
  "execute_command host (JTAG_RESET trst srst) ret s = Some (ret, ublast_reset trst srst s)"
| "execute_command host (JTAG_RUNTEST cycles state) ret s =
     map_option (Pair ret) (ublast_runtest host cycles state s)"
| "execute_command host (JTAG_STABLECLOCKS cycles) ret s =
     map_option (Pair ret) (ublast_stableclocks cycles s)"
| "execute_command host (JTAG_TLR_RESET state) ret s = Some (ret, ublast_state_move host state s)"
| "execute_command host (JTAG_PATHMOVE path) ret s = Some (ret, ublast_path_move host path s)"
| "execute_command host (JTAG_TMS bits nb) ret s = Some (ret, ublast_tms bits nb s)"
| "execute_command host (JTAG_SLEEP us) ret s = Some (ret, s)"
| "execute_command host (JTAG_SCAN cmd) ret s =
     map_option (\<lambda>(r, b, s'). (r, s')) (ublast_scan host cmd s)"

fun execute_loop :: "jtag_host \<Rightarrow> jtag_command list \<Rightarrow> retval \<Rightarrow> ublast \<Rightarrow> (retval \<times> ublast) option" where
  "execute_loop host [] ret s = Some (ret, s)"
| "execute_loop host (cmd # rest) ret s =
     (if ret = ERROR_OK then
        (case execute_command host cmd ret s of
           None \<Rightarrow> None
         | Some (ret', s') \<Rightarrow> execute_loop host rest ret' s')
      else Some (ret, s))"

definition ublast_execute_queue ::
  "jtag_host \<Rightarrow> jtag_command list \<Rightarrow> ublast \<Rightarrow> (retval \<times> ublast) option" where
  "ublast_execute_queue host jtag_command_queue s =
     (case execute_loop host jtag_command_queue ERROR_OK s of
        None \<Rightarrow> None
      | Some (ret, s') \<Rightarrow> Some (ret, ublast_flush_buffer s'))"

subsection \<open>Initialisation\<close>

text \<open>
  \<^verbatim>\<open>lowlevel_drivers_map\<close> is given by the names and by what each \<^verbatim>\<open>drv_register\<close> returns
  (\<open>None\<close> for a null pointer). The copies of the USB vendor id, product id and device
  description into the driver are left out: only the back-end reads them.
\<close>

fun find_named :: "(string \<times> ublast_lowlevel option) list \<Rightarrow> string \<Rightarrow> ublast_lowlevel option option" where
  "find_named [] name = None"
| "find_named ((n, r) # rest) name = (if n = name then Some r else find_named rest name)"

fun try_all :: "(string \<times> ublast_lowlevel option) list \<Rightarrow> ublast_lowlevel option \<Rightarrow> ublast_lowlevel option" where
  "try_all [] d = d"
| "try_all ((n, r) # rest) d = (if d = None then try_all rest r else d)"

text \<open>The loop \<^verbatim>\<open>for (i = 0; i < 128 / BUF_LEN; i += BUF_LEN)\<close> of \<^verbatim>\<open>ublast_init\<close>.\<close>

function init_fifo_loop :: "nat \<Rightarrow> ublast \<Rightarrow> ublast" where
  "init_fifo_loop i s =
     (if i < 128 div BUF_LEN
      then init_fifo_loop (i + BUF_LEN) (snd (snd (ublast_buf_write (replicate BUF_LEN 0) s)))
      else s)"
  by pat_completeness auto
termination
  by (relation "measure (\<lambda>(i, s). 128 div BUF_LEN - i)") (auto simp: BUF_LEN_def)

definition ublast_init :: "(string \<times> ublast_lowlevel option) list \<Rightarrow> ublast \<Rightarrow> retval \<times> ublast" where
  "ublast_init lowlevel_drivers_map s =
     (let s1 = (case lowlevel_name s of
                  Some name \<Rightarrow>
                    (case find_named lowlevel_drivers_map name of
                       Some r \<Rightarrow> s\<lparr>drv := r\<rparr>
                     | None \<Rightarrow> s)
                | None \<Rightarrow> s\<lparr>drv := try_all lowlevel_drivers_map (drv s)\<rparr>)
      in case drv s1 of
           None \<Rightarrow> (ERROR_JTAG_DEVICE_ERROR, s1)
         | Some d \<Rightarrow>
             let ret = open_answer d
             in if ret = ERROR_OK then
                  (ret, (ublast_tms_seq [0xff] 5 (init_fifo_loop 0 s1))\<lparr>tap := TAP_RESET\<rparr>)
                else (ret, s1))"

section \<open>Properties of the USB-Blaster engine\<close>

subsection \<open>The recorded TAP state is touched by state moves only\<close>

lemma queue_byte_tap [simp]: "tap (ublast_queue_byte b s) = tap s"
  by (simp add: ublast_queue_byte_def Let_def)

lemma clock_tms_tap [simp]: "tap (ublast_clock_tms t s) = tap s"
  by (simp add: ublast_clock_tms_def Let_def)

lemma idle_clock_tap [simp]: "tap (ublast_idle_clock s) = tap s"
  by (simp add: ublast_idle_clock_def)

lemma clock_tdi_tap [simp]: "tap (ublast_clock_tdi d ty s) = tap s"
  by (simp add: ublast_clock_tdi_def Let_def)

lemma clock_tdi_flip_tms_tap [simp]: "tap (ublast_clock_tdi_flip_tms d ty s) = tap s"
  by (simp add: ublast_clock_tdi_flip_tms_def Let_def)

lemma fold_clock_tms_tap: "tap (fold (\<lambda>i. ublast_clock_tms (f i)) is s) = tap s"
  by (induction "is" arbitrary: s) simp_all

lemma tms_seq_tap [simp]: "tap (ublast_tms_seq bits n s) = tap s"
  by (simp add: ublast_tms_seq_def fold_clock_tms_tap)

lemma state_move_tap [simp]: "tap (ublast_state_move host st s) = st"
  by (simp add: ublast_state_move_def Let_def)

lemma queue_bytes_tap: "ublast_queue_bytes bytes n s = Some s' \<Longrightarrow> tap s' = tap s"
  by (auto simp: ublast_queue_bytes_def Let_def split: if_splits)

lemma tdi_burst_tap:
  assumes "tdi_burst bits rd nb8 i tdos s = Some (ntrans, tdos', s')"
  shows "tap s' = tap s"
proof -
  define t where "t = MIN_macro (nb_buf_remaining s - 1) (int nb8 - i)"
  define s1 where "s1 = (if rd then ublast_queue_byte (SHMODE OR READ OR word_of_int t) s
                else ublast_queue_byte (SHMODE OR word_of_int t) s)"
  define q where "q = (case bits of Some bs \<Rightarrow> ublast_queue_bytes (Some (drop (nat i) bs)) t s1
               | None \<Rightarrow> ublast_queue_bytes (Some (replicate BUF_LEN 0)) t s1)"
  from assms obtain s2 where q: "q = Some s2"
    and fin: "(if rd then (case ublast_read_byteshifted_tdos (nat i) t tdos s2 of
                  (ret, tdos', s3) \<Rightarrow> Some (t, tdos', s3)) else Some (t, tdos, s2))
              = Some (ntrans, tdos', s')"
    unfolding tdi_burst_def Let_def t_def [symmetric] s1_def [symmetric] q_def [symmetric]
    by (auto split: option.splits)
  from q obtain bytes where "ublast_queue_bytes bytes t s1 = Some s2"
    unfolding q_def by (auto split: option.splits)
  from queue_bytes_tap [OF this] have t2: "tap s2 = tap s"
    by (simp add: s1_def)
  show ?thesis
  proof (cases rd)
    case False
    with fin t2 show ?thesis by simp
  next
    case True
    with fin obtain ret where
      "read_loop ERROR_OK t (nat i) tdos (ublast_flush_buffer s2) = (ret, tdos', s')"
      by (auto simp: ublast_read_byteshifted_tdos_def split: prod.splits)
    from read_loop_keeps [OF this] t2 show ?thesis by simp
  qed
qed

lemma tdi_byteshift_loop_tap:
  "tdi_byteshift_loop bits rd nb8 i tdos s = Some (tdos', s') \<Longrightarrow> tap s' = tap s"
proof (induction bits rd nb8 i tdos s rule: tdi_byteshift_loop.induct)
  case (1 bits rd nb8 i tdos s)
  show ?case
  proof (cases "i < int nb8")
    case False
    with "1.prems" show ?thesis by (simp add: tdi_byteshift_loop.simps)
  next
    case True
    with "1.prems" obtain n t1 s1 where
      b: "tdi_burst bits rd nb8 i tdos s = Some (n, t1, s1)"
      and r: "tdi_byteshift_loop bits rd nb8 (i + n) t1 s1 = Some (tdos', s')"
      by (subst (asm) tdi_byteshift_loop.simps) (auto split: option.splits)
    from "1.IH" [OF True b refl refl r] tdi_burst_tap [OF b] show ?thesis by simp
  qed
qed

lemma tdi_bitbang_loop_tap [simp]: "tap (tdi_bitbang_loop bits nb8 nb1 scan sh s) = tap s"
proof -
  have "tap (fold (\<lambda>i s0.
         let d = (case bits of Some bs \<Rightarrow> uint (byte_at bs (nb8 + i div 8) AND push_bit i 1)
                  | None \<Rightarrow> 0)
         in if sh \<noteq> 0 \<and> bits \<noteq> None \<and> int i = int nb1 - 1
            then ublast_clock_tdi_flip_tms d scan s0 else ublast_clock_tdi d scan s0) is s) = tap s"
    for "is"
    by (induction "is" arbitrary: s) (simp_all add: Let_def)
  then show ?thesis by (simp add: tdi_bitbang_loop_def)
qed

lemma read_bitbang_tdos_tap:
  "ublast_read_bitbang_tdos off n tdos s = (ret, tdos', s') \<Longrightarrow> tap s' = tap s"
  by (auto simp: ublast_read_bitbang_tdos_def ublast_buf_read_def
      split: prod.splits option.splits)

lemma queue_tdi_tap:
  assumes "ublast_queue_tdi bits n scan sh s = Some (bits', s')"
  shows "tap s' = tap s"
proof -
  let ?rd = "scan = SCAN_IN \<or> scan = SCAN_IO"
  from assms obtain tdos1 s1 where
    l: "tdi_byteshift_loop bits ?rd (fst (tdi_split n)) 0 (replicate (n div 8 + 1) 0) s
          = Some (tdos1, s1)"
    unfolding ublast_queue_tdi_def Let_def by (auto split: option.splits)
  let ?s2 = "tdi_bitbang_loop bits (fst (tdi_split n)) (snd (tdi_split n)) scan sh s1"
  obtain r t3 s3 where
    rb: "ublast_read_bitbang_tdos (fst (tdi_split n)) (int (snd (tdi_split n))) tdos1 ?s2
          = (r, t3, s3)"
    by (cases "ublast_read_bitbang_tdos (fst (tdi_split n)) (int (snd (tdi_split n))) tdos1 ?s2")
       auto
  from assms l rb have "s' = ublast_idle_clock s3 \<or> s' = ublast_idle_clock ?s2"
    unfolding ublast_queue_tdi_def Let_def by (auto split: if_splits)
  with read_bitbang_tdos_tap [OF rb] tdi_byteshift_loop_tap [OF l] show ?thesis by auto
qed

lemma scan_tap:
  assumes "ublast_scan host cmd s = Some (ret, b, s')"
  shows "tap s' = (if end_state cmd \<noteq> TAP_DRSHIFT then end_state cmd
                   else if ir_scan cmd then TAP_IRSHIFT else TAP_DRSHIFT)"
proof -
  let ?s1 = "if ir_scan cmd then ublast_state_move host TAP_IRSHIFT s
             else ublast_state_move host TAP_DRSHIFT s"
  let ?sh = "if end_state cmd = TAP_DRSHIFT then NO_TAP_SHIFT else TAP_SHIFT"
  from assms obtain lg where
    hx: "hexdump (payload cmd) (DIV_ROUND_UP (num_bits cmd) 8) = Some lg"
    unfolding ublast_scan_def jtag_build_buffer_def jtag_scan_type_def Let_def
    by (auto split: option.splits)
  from assms hx obtain b2 s2 where
    q: "ublast_queue_tdi (payload cmd) (num_bits cmd) (direction cmd) ?sh ?s1 = Some (b2, s2)"
    unfolding ublast_scan_def jtag_build_buffer_def jtag_scan_type_def Let_def
    by (auto split: option.splits if_splits)
  have t2: "tap s2 = (if ir_scan cmd then TAP_IRSHIFT else TAP_DRSHIFT)"
    using queue_tdi_tap [OF q] by simp
  show ?thesis
  proof (cases "end_state cmd = TAP_DRSHIFT")
    case True
    with assms q hx have "s' = s2"
      unfolding ublast_scan_def jtag_build_buffer_def jtag_scan_type_def Let_def by simp
    with t2 True show ?thesis by simp
  next
    case False
    with assms q hx have "\<exists>s3. s' = ublast_state_move host (end_state cmd) s3"
      unfolding ublast_scan_def jtag_build_buffer_def jtag_scan_type_def Let_def by auto
    with False show ?thesis by auto
  qed
qed

subsection \<open>A session to run the engine on\<close>

definition example_host :: jtag_host where
  "example_host = \<lparr>tap_state_transition = (\<lambda>st b. st), tap_get_tms_path = (\<lambda>a b. 0x03),
     tap_get_tms_path_len = (\<lambda>a b. 4), jtag_read_buffer = (\<lambda>b c. ERROR_OK)\<rparr>"

definition example_drv :: ublast_lowlevel where
  "example_drv = \<lparr>open_answer = ERROR_OK, close_answer = ERROR_OK,
     write_answers = [(ERROR_OK, 64), (ERROR_OK, 64), (ERROR_OK, 64), (ERROR_OK, 64)],
     read_answers = [], write_calls = []\<rparr>"

definition example_session :: ublast where
  "example_session = \<lparr>pin6 = 0, pin8 = 0, tms = 0, tdi = 0, buf = replicate 64 0, bufidx = 0,
     lowlevel_name = None, drv = Some example_drv, tap = TAP_IDLE\<rparr>"

definition example_scan :: "bool \<Rightarrow> tap_state \<Rightarrow> scan_command" where
  "example_scan ir e = \<lparr>ir_scan = ir, direction = SCAN_OUT, num_bits = 4,
     payload = Some [0x0b], end_state = e\<rparr>"

subsection \<open>Claim C2: the split of the bits\<close>

text \<open>
  The split as the specification words it, with the borrow only when exit is requested.
\<close>

definition spec_split :: "nat \<Rightarrow> bool \<Rightarrow> nat \<times> nat" where
  "spec_split n exit_requested =
     (let nb8 = n div 8; nb1 = n mod 8
      in if exit_requested \<and> nb1 = 0 \<and> nb8 > 0 then (nb8 - 1, 8) else (nb8, nb1))"

text \<open>
  C2, as stated, fails: \<^verbatim>\<open>ublast_queue_tdi\<close> computes the split before it looks at
  \<^verbatim>\<open>tap_shift\<close>, so 8 bits without an exit request are still split into no byte-shift
  byte and 8 bit-bang bits, where the specification's rule gives one byte and no bit.
\<close>

theorem tdi_split_borrow_without_exit:
  "tdi_split 8 = (0, 8) \<and> spec_split 8 (NO_TAP_SHIFT \<noteq> 0) = (1, 0)"
  by (simp add: tdi_split_def spec_split_def NO_TAP_SHIFT_def)

text \<open>
  C2 (amended): for \<open>n\<close> input bits the split is \<open>nb8 = n / 8\<close>, \<open>nb1 = n % 8\<close>; the
  borrow (\<open>nb8 - 1\<close>, \<open>nb1 = 8\<close>) is applied exactly when \<open>nb1 = 0\<close> and \<open>nb8 > 0\<close>, whether
  or not exit is requested; in all cases \<open>nb8 * 8 + nb1 = n\<close>.
\<close>

theorem tdi_split_sound:
  "fst (tdi_split n) * 8 + snd (tdi_split n) = n
   \<and> (tdi_split n = (n div 8 - 1, 8)) = (n mod 8 = 0 \<and> 0 < n div 8)
   \<and> (tdi_split n = (n div 8, n mod 8)) = (\<not> (n mod 8 = 0 \<and> 0 < n div 8))"
proof -
  have "n div 8 * 8 + n mod 8 = n" by simp
  moreover have "0 < n div 8 \<Longrightarrow> (n div 8 - 1) * 8 + 8 = n div 8 * 8"
    by (simp add: algebra_simps)
  ultimately show ?thesis
    by (auto simp: tdi_split_def Let_def)
qed

theorem tdi_split_sound_witness:
  "tdi_split 16 = (1, 8) \<and> tdi_split 12 = (1, 4) \<and> tdi_split 0 = (0, 0)"
  using tdi_split_sound [of 16] tdi_split_sound [of 12] tdi_split_sound [of 0]
  by (simp add: tdi_split_def)

subsection \<open>Claim C7: what \<^verbatim>\<open>ublast_init\<close> sends\<close>

lemmas engine_defs = ublast_tms_seq_def ublast_idle_clock_def ublast_clock_tms_def
  ublast_queue_byte_def ublast_build_out_def Let_def nb_buf_remaining_def BUF_LEN_def
  TMS_def LED_def TCK_def byte_at_def upt_conv_Cons ublast_flush_buffer_def flush_loop.simps
  ublast_buf_write_def drv_write_def

text \<open>
  C7 at a concrete input: the driver \<open>ftdi\<close> is selected by name, its \<^verbatim>\<open>open\<close> succeeds and it
  accepts every write in full. The loop \<^verbatim>\<open>for (i = 0; i < 128 / BUF_LEN; i += BUF_LEN)\<close> runs
  once (its bound is 2 and its step 64), so one block of 64 zero bytes is written, not 128
  bytes in two packets. The five TMS=1 cycles and the idle clock follow in the write buffer
  (11 bytes) and the recorded state is \<^verbatim>\<open>TAP_RESET\<close>.
\<close>

theorem ublast_init_writes_64_bytes:
  "(case ublast_init [(''ftdi'', Some example_drv), (''ftd2xx'', None)]
           (example_session\<lparr>drv := None, lowlevel_name := Some ''ftdi''\<rparr>) of
      (ret, s') \<Rightarrow> (ret, tap s', bufidx s', map_option write_calls (drv s')))
   = (ERROR_OK, TAP_RESET, 11, Some [replicate 64 0])"
  by (simp add: ublast_init_def init_fifo_loop.simps engine_defs example_session_def
      example_drv_def)

subsection \<open>Claim C10: a failed write while flushing\<close>

lemma execute_command_ret:
  assumes "\<forall>b c. jtag_read_buffer host b c = ERROR_OK"
    and "execute_command host cmd ERROR_OK s = Some (ret, s')"
  shows "ret = ERROR_OK"
proof (cases cmd)
  case (JTAG_SCAN c)
  with assms(2) obtain b where "ublast_scan host c s = Some (ret, b, s')"
    by auto
  then have "\<exists>b'. ret = jtag_read_buffer host b' c"
    unfolding ublast_scan_def Let_def by (auto split: option.splits prod.splits if_splits)
  with assms(1) show ?thesis by auto
qed (use assms(2) in auto)

lemma execute_loop_ret:
  assumes "\<forall>b c. jtag_read_buffer host b c = ERROR_OK"
  shows "execute_loop host q ERROR_OK s = Some (ret, s') \<Longrightarrow> ret = ERROR_OK"
proof (induction q arbitrary: s)
  case Nil
  then show ?case by simp
next
  case (Cons cmd q)
  from Cons.prems obtain r1 s1 where
    c: "execute_command host cmd ERROR_OK s = Some (r1, s1)"
    and l: "execute_loop host q r1 s1 = Some (ret, s')"
    by (auto split: option.splits)
  from execute_command_ret [OF assms c] have "r1 = ERROR_OK" .
  with l Cons.IH show ?case by simp
qed

definition failing_drv :: ublast_lowlevel where
  "failing_drv = \<lparr>open_answer = ERROR_OK, close_answer = ERROR_OK,
     write_answers = [(ERROR_JTAG_DEVICE_ERROR, 0)], read_answers = [], write_calls = []\<rparr>"

text \<open>
  C10 fails on the code: \<^verbatim>\<open>ublast_flush_buffer\<close> is \<^verbatim>\<open>void\<close> and drops the return code of
  the write, so the value \<^verbatim>\<open>ublast_execute_queue\<close> returns never depends on the transport.
  Whenever \<^verbatim>\<open>jtag_read_buffer\<close> of the host reports success, the queue reports
  \<^verbatim>\<open>ERROR_OK\<close>, whatever the back-end answered to the writes.
\<close>

theorem execute_queue_hides_write_errors:
  assumes "\<forall>b c. jtag_read_buffer host b c = ERROR_OK"
    and "ublast_execute_queue host q s = Some (ret, s')"
  shows "ret = ERROR_OK"
proof -
  from assms(2) obtain s1 where "execute_loop host q ERROR_OK s = Some (ret, s1)"
    unfolding ublast_execute_queue_def by (auto split: option.splits)
  from execute_loop_ret [OF assms(1) this] show ?thesis .
qed

text \<open>
  The failing input: one TMS command of five bits, on a back-end whose only write fails with
  \<^verbatim>\<open>ERROR_JTAG_DEVICE_ERROR\<close>. The write is attempted once, its answer is consumed, and the
  queue returns \<^verbatim>\<open>ERROR_OK\<close>.
\<close>

theorem execute_queue_hides_write_errors_witness:
  "map_option (\<lambda>(ret, s'). (ret, map_option (\<lambda>d. (length (write_calls d), write_answers d)) (drv s')))
     (ublast_execute_queue example_host [JTAG_TMS [0xff] 5]
        (example_session\<lparr>drv := Some failing_drv\<rparr>))
   = Some (ERROR_OK, Some (1, []))"
proof -
  have run: "map_option (\<lambda>(ret, s'). map_option (\<lambda>d. (length (write_calls d), write_answers d)) (drv s'))
     (ublast_execute_queue example_host [JTAG_TMS [0xff] 5]
        (example_session\<lparr>drv := Some failing_drv\<rparr>))
   = Some (Some (1, []))"
    by (simp add: ublast_execute_queue_def ublast_tms_def engine_defs example_session_def
        failing_drv_def)
  then obtain ret s' where
    r: "ublast_execute_queue example_host [JTAG_TMS [0xff] 5]
          (example_session\<lparr>drv := Some failing_drv\<rparr>) = Some (ret, s')"
    by auto
  have "\<forall>b c. jtag_read_buffer example_host b c = ERROR_OK"
    by (simp add: example_host_def)
  from execute_queue_hides_write_errors [OF this r] run r show ?thesis by simp
qed

subsection \<open>Packets in the buffer and on the wire\<close>

text \<open>
  What has left the write buffer and what is still in it: \<open>sent\<close> lists the blocks handed
  to the \<^verbatim>\<open>write\<close> of the back-end, \<open>pending\<close> the bytes queued since the last flush. The
  engine works on sessions that are \<open>ready\<close>: the buffer has its 64 places, is not full, and
  a driver is registered. \<open>appended s bytes s'\<close> says that between \<open>s\<close> and \<open>s'\<close> the bytes
  were queued behind the pending ones into one packet, which is still pending or was handed
  to the back-end as one block (the first write call after those of \<open>s\<close>).
\<close>

definition pending :: "ublast \<Rightarrow> u8 list" where
  "pending s = take (bufidx s) (buf s)"

definition sent :: "ublast \<Rightarrow> u8 list list" where
  "sent s = (case drv s of None \<Rightarrow> [] | Some d \<Rightarrow> write_calls d)"

definition ready :: "ublast \<Rightarrow> bool" where
  "ready s = (length (buf s) = BUF_LEN \<and> bufidx s < BUF_LEN \<and> drv s \<noteq> None)"

definition appended :: "ublast \<Rightarrow> u8 list \<Rightarrow> ublast \<Rightarrow> bool" where
  "appended s bytes s' =
     (pending s' = pending s @ bytes \<and> sent s' = sent s
      \<or> pending s' = [] \<and> take (Suc (length (sent s))) (sent s') = sent s @ [pending s @ bytes])"

lemma buf_write_sent:
  "drv s \<noteq> None \<Longrightarrow> ublast_buf_write bytes s = (r, k, s') \<Longrightarrow>
   sent s' = sent s @ [bytes] \<and> drv s' \<noteq> None"
  by (auto simp: ublast_buf_write_def drv_write_def sent_def
      split: option.splits list.splits prod.splits)

lemma flush_loop_sent:
  "drv s \<noteq> None \<Longrightarrow>
   (\<exists>more. sent (flush_loop ret nb s) = sent s @ more) \<and> drv (flush_loop ret nb s) \<noteq> None"
proof (induction ret nb s rule: flush_loop.induct)
  case (1 ret nb s)
  show ?case
  proof (cases "ret = ERROR_OK \<and> nb > 0")
    case False
    then have "flush_loop ret nb s = s" by (subst flush_loop.simps) auto
    with "1.prems" show ?thesis by simp
  next
    case True
    obtain ret' retlen s' where w: "ublast_buf_write (take (nat nb) (buf s)) s = (ret', retlen, s')"
      by (cases "ublast_buf_write (take (nat nb) (buf s)) s") auto
    from buf_write_sent [OF "1.prems" w]
    have s': "sent s' = sent s @ [take (nat nb) (buf s)]" and d': "drv s' \<noteq> None" by auto
    have eq: "flush_loop ret nb s = flush_loop ret' (nb - int retlen) s'"
      using True w by (simp add: flush_loop.simps)
    from "1.IH" [OF True w [symmetric] refl d'] s' show ?thesis
      unfolding eq by auto
  qed
qed

lemma flush_loop_first:
  assumes "drv s \<noteq> None" and "0 < nb"
  shows "\<exists>more. sent (flush_loop ERROR_OK nb s) = sent s @ take (nat nb) (buf s) # more"
proof -
  obtain ret' retlen s' where w: "ublast_buf_write (take (nat nb) (buf s)) s = (ret', retlen, s')"
    by (cases "ublast_buf_write (take (nat nb) (buf s)) s") auto
  from buf_write_sent [OF assms(1) w]
  have s': "sent s' = sent s @ [take (nat nb) (buf s)]" and d': "drv s' \<noteq> None" by auto
  have eq: "flush_loop ERROR_OK nb s = flush_loop ret' (nb - int retlen) s'"
    using assms(2) w by (simp add: flush_loop.simps)
  from flush_loop_sent [OF d', of ret' "nb - int retlen"] s' show ?thesis
    unfolding eq by auto
qed

lemma flush_buffer_sent:
  assumes "drv s \<noteq> None"
  shows "drv (ublast_flush_buffer s) \<noteq> None"
    and "pending (ublast_flush_buffer s) = []"
    and "bufidx s = 0 \<Longrightarrow> sent (ublast_flush_buffer s) = sent s"
    and "0 < bufidx s \<Longrightarrow>
         take (Suc (length (sent s))) (sent (ublast_flush_buffer s)) = sent s @ [pending s]"
proof -
  show "drv (ublast_flush_buffer s) \<noteq> None"
    using flush_loop_sent [OF assms, of ERROR_OK "int (bufidx s)"]
    by (simp add: ublast_flush_buffer_def)
  show "pending (ublast_flush_buffer s) = []"
    by (simp add: pending_def)
  show "sent (ublast_flush_buffer s) = sent s" if "bufidx s = 0"
    using that by (simp add: ublast_flush_buffer_def flush_loop.simps sent_def)
  show "take (Suc (length (sent s))) (sent (ublast_flush_buffer s)) = sent s @ [pending s]"
    if "0 < bufidx s"
  proof -
    from flush_loop_first [OF assms, of "int (bufidx s)"] that obtain more where
      "sent (flush_loop ERROR_OK (int (bufidx s)) s) = sent s @ pending s # more"
      by (auto simp: pending_def)
    then show ?thesis by (simp add: ublast_flush_buffer_def sent_def)
  qed
qed

lemma queue_byte_frame:
  assumes "ready s"
  shows "ready (ublast_queue_byte b s)" and "appended s [b] (ublast_queue_byte b s)"
    and "bufidx (ublast_queue_byte b s) = (if bufidx s = 63 then 0 else bufidx s + 1)"
proof -
  let ?s2 = "s\<lparr>buf := (buf s)[bufidx s := b], bufidx := bufidx s + 1\<rparr>"
  from assms have len: "length (buf s) = 64" and idx: "bufidx s < 64" and d: "drv s \<noteq> None"
    by (simp_all add: ready_def BUF_LEN_def)
  have p2: "pending ?s2 = pending s @ [b]"
    using len idx by (simp add: pending_def take_Suc_conv_app_nth)
  have d2: "drv ?s2 \<noteq> None" using d by simp
  have s2: "sent ?s2 = sent s" by (simp add: sent_def)
  have qb: "ublast_queue_byte b s = (if bufidx s = 63 then ublast_flush_buffer ?s2 else ?s2)"
    using idx by (auto simp: ublast_queue_byte_def nb_buf_remaining_def BUF_LEN_def Let_def)
  show "ready (ublast_queue_byte b s)"
  proof (cases "bufidx s = 63")
    case True
    with len flush_buffer_sent(1) [OF d2] show ?thesis
      by (simp add: qb ready_def BUF_LEN_def)
  next
    case False
    with len idx d show ?thesis by (simp add: qb ready_def BUF_LEN_def)
  qed
  show "bufidx (ublast_queue_byte b s) = (if bufidx s = 63 then 0 else bufidx s + 1)"
    by (simp add: qb)
  show "appended s [b] (ublast_queue_byte b s)"
  proof (cases "bufidx s = 63")
    case False
    then show ?thesis using p2 s2 by (simp add: qb appended_def)
  next
    case True
    then have "0 < bufidx ?s2" by simp
    from flush_buffer_sent(4) [OF d2 this] flush_buffer_sent(2) [OF d2] True p2 s2
    show ?thesis by (simp add: qb appended_def)
  qed
qed


lemma take_store_at:
  "i \<le> length xs \<Longrightarrow> take (i + length data) (store_at xs i data) = take i xs @ data"
  by (simp add: store_at_def)

lemma length_store_at:
  "i + length data \<le> length xs \<Longrightarrow> length (store_at xs i data) = length xs"
  by (simp add: store_at_def)

lemma queue_bytes_frame:
  assumes "ready s" and "0 \<le> n" and "int (bufidx s) + n \<le> 64"
  shows "\<exists>s'. ublast_queue_bytes (Some bs) n s = Some s' \<and> ready s'
           \<and> appended s (block bs (nat n)) s'
           \<and> bufidx s' = (if int (bufidx s) + n = 64 then 0 else bufidx s + nat n)"
proof -
  let ?data = "block bs (nat n)"
  let ?s1 = "s\<lparr>buf := store_at (buf s) (bufidx s) ?data, bufidx := bufidx s + nat n\<rparr>"
  from assms have len: "length (buf s) = 64" and idx: "bufidx s < 64" and d: "drv s \<noteq> None"
    by (simp_all add: ready_def BUF_LEN_def)
  have ld: "length ?data = nat n" by (simp add: block_def)
  have p1: "pending ?s1 = pending s @ ?data"
    using take_store_at [of "bufidx s" "buf s" ?data] len idx ld by (simp add: pending_def)
  have l1: "length (buf ?s1) = 64"
    using length_store_at [of "bufidx s" ?data "buf s"] len ld assms(2,3) by simp
  have d1: "drv ?s1 \<noteq> None" using d by simp
  have s1: "sent ?s1 = sent s" by (simp add: sent_def)
  have q: "ublast_queue_bytes (Some bs) n s
            = Some (if int (bufidx s) + n = 64 then ublast_flush_buffer ?s1 else ?s1)"
    using assms(2,3)
    by (auto simp: ublast_queue_bytes_def nb_buf_remaining_def BUF_LEN_def Let_def)
  show ?thesis
  proof (cases "int (bufidx s) + n = 64")
    case True
    then have pos: "0 < bufidx ?s1" using idx by simp
    from flush_buffer_sent(4) [OF d1 pos] flush_buffer_sent(2) [OF d1] flush_buffer_sent(1) [OF d1]
      p1 s1 l1 True
    show ?thesis by (simp add: q appended_def ready_def BUF_LEN_def)
  next
    case False
    with assms(2,3) have "bufidx s + nat n < 64" by linarith
    with False p1 s1 l1 d1 show ?thesis by (simp add: q appended_def ready_def BUF_LEN_def)
  qed
qed

lemma read_loop_sent:
  "read_loop ret nb off tdos s = (ret', tdos', s') \<Longrightarrow> sent s' = sent s"
proof (induction ret nb off tdos s rule: read_loop.induct)
  case (1 ret nb off tdos s)
  show ?case
  proof (cases "ret = ERROR_OK \<and> nb > 0")
    case False
    with "1.prems" show ?thesis by (subst (asm) read_loop.simps) auto
  next
    case True
    obtain r data s1 where rd: "ublast_buf_read (nat nb) s = (r, data, s1)"
      by (cases "ublast_buf_read (nat nb) s") auto
    have same: "sent s1 = sent s"
      using rd by (auto simp: ublast_buf_read_def drv_read_def sent_def
          split: option.splits prod.splits list.splits)
    have "read_loop r (nb - int (length data)) off (store_at tdos off data) s1 = (ret', tdos', s')"
      using "1.prems" True rd by (subst (asm) read_loop.simps) simp
    from "1.IH" [OF True rd [symmetric] refl this] same show ?thesis by simp
  qed
qed

lemma read_byteshifted_frame:
  assumes "ready s" and "ublast_read_byteshifted_tdos off n tdos s = (ret, tdos', s')"
  shows "ready s' \<and> bufidx s' = 0 \<and> appended s [] s'"
proof -
  from assms(1) have len: "length (buf s) = 64" and d: "drv s \<noteq> None"
    by (simp_all add: ready_def BUF_LEN_def)
  let ?f = "ublast_flush_buffer s"
  from assms(2) have rl: "read_loop ERROR_OK n off tdos ?f = (ret, tdos', s')"
    by (simp add: ublast_read_byteshifted_tdos_def)
  from read_loop_keeps [OF rl] read_loop_sent [OF rl] flush_buffer_sent(1) [OF d]
  have k: "bufidx s' = 0" "buf s' = buf s" "sent s' = sent ?f" "drv s' \<noteq> None"
    by auto
  have "appended s [] s'"
  proof (cases "bufidx s = 0")
    case True
    with flush_buffer_sent(3) [OF d] k show ?thesis
      by (simp add: appended_def pending_def)
  next
    case False
    with flush_buffer_sent(4) [OF d] k show ?thesis
      by (simp add: appended_def pending_def)
  qed
  with k len show ?thesis by (simp add: ready_def BUF_LEN_def)
qed


lemma appended_trans:
  assumes "appended s a s1" and "appended s1 b s2" and "sent s1 \<noteq> sent s \<longrightarrow> b = []"
  shows "appended s (a @ b) s2"
proof (cases "sent s1 = sent s")
  case True
  with assms(1) have p1: "pending s1 = pending s @ a"
    by (auto simp: appended_def)
  from assms(2) True p1 show ?thesis
    by (auto simp: appended_def)
next
  case False
  with assms(3) have b: "b = []" by simp
  from assms(1) False have e1: "pending s1 = []"
    and t1: "take (Suc (length (sent s))) (sent s1) = sent s @ [pending s @ a]"
    by (auto simp: appended_def)
  from t1 have "length (take (Suc (length (sent s))) (sent s1)) = Suc (length (sent s))"
    by simp
  then have le: "Suc (length (sent s)) \<le> length (sent s1)" by simp
  from assms(2) b e1 have e2: "pending s2 = []"
    and pre: "take (length (sent s1)) (sent s2) = sent s1"
  proof -
    from assms(2) b e1 show "pending s2 = []" by (auto simp: appended_def)
    from assms(2) b e1 consider "sent s2 = sent s1"
      | "take (Suc (length (sent s1))) (sent s2) = sent s1 @ [[]]"
      by (auto simp: appended_def)
    then show "take (length (sent s1)) (sent s2) = sent s1"
    proof cases
      case 1
      then show ?thesis by simp
    next
      case 2
      then have "take (length (sent s1)) (take (Suc (length (sent s1))) (sent s2)) = sent s1"
        by simp
      then show ?thesis by (simp add: min_def)
    qed
  qed
  have "take (Suc (length (sent s))) (sent s2)
          = take (Suc (length (sent s))) (take (length (sent s1)) (sent s2))"
    using le by (simp add: min_def)
  also have "\<dots> = sent s @ [pending s @ a]" using pre t1 by simp
  finally show ?thesis using e2 b by (simp add: appended_def)
qed

lemma ready_pending_length: "ready s \<Longrightarrow> length (pending s) = bufidx s"
  by (simp add: ready_def pending_def BUF_LEN_def)

lemma tdi_burst_frame_aux:
  assumes r: "ready s" and i: "i < int nb8"
  shows "\<exists>n tdos' s'.
      tdi_burst bits rd nb8 i tdos s = Some (int n, tdos', s')
    \<and> int n = MIN_macro (63 - int (bufidx s)) (int nb8 - i)
    \<and> n \<le> 63 \<and> (n = 0) = (bufidx s = 63) \<and> bufidx s + 1 + n \<le> 64
    \<and> ready s'
    \<and> bufidx s' = (if rd \<or> bufidx s + 1 + n = 64 then 0 else bufidx s + 1 + n)
    \<and> appended s ((if rd then SHMODE OR READ OR of_nat n else SHMODE OR of_nat n)
                  # (case bits of Some bs \<Rightarrow> block (drop (nat i) bs) n
                     | None \<Rightarrow> replicate n 0)) s'"
proof -
  from r have idx: "bufidx s < 64" by (simp add: ready_def BUF_LEN_def)
  define t where "t = MIN_macro (nb_buf_remaining s - 1) (int nb8 - i)"
  define n where "n = nat t"
  have t_eq: "t = MIN_macro (63 - int (bufidx s)) (int nb8 - i)"
    by (simp add: t_def nb_buf_remaining_def BUF_LEN_def)
  have t0: "0 \<le> t" and t63: "t \<le> 63 - int (bufidx s)"
    using idx i by (auto simp: t_eq MIN_macro_def)
  have tn: "t = int n" using t0 by (simp add: n_def)
  have nz: "(n = 0) = (bufidx s = 63)"
    using idx i t0 by (auto simp: n_def t_eq MIN_macro_def)
  define h :: u8 where "h = (if rd then SHMODE OR READ OR of_nat n else SHMODE OR of_nat n)"
  define src where "src = (case bits of Some bs \<Rightarrow> drop (nat i) bs | None \<Rightarrow> replicate BUF_LEN 0)"
  define payload where "payload = block src n"
  define s1 where "s1 = ublast_queue_byte h s"
  have hw: "(if rd then ublast_queue_byte (SHMODE OR READ OR word_of_int t) s
             else ublast_queue_byte (SHMODE OR word_of_int t) s) = s1"
    by (simp add: s1_def h_def tn)
  from queue_byte_frame [OF r, of h]
  have r1: "ready s1" and a1: "appended s [h] s1"
    and b1: "bufidx s1 = (if bufidx s = 63 then 0 else bufidx s + 1)"
    by (simp_all add: s1_def)
  have fit: "int (bufidx s1) + t \<le> 64"
    using b1 t63 nz tn by (auto split: if_splits)
  from queue_bytes_frame [OF r1 t0 fit, of src] obtain s2 where
    q: "ublast_queue_bytes (Some src) t s1 = Some s2" and r2: "ready s2"
    and a2: "appended s1 payload s2"
    and b2': "bufidx s2 = (if int (bufidx s1) + t = 64 then 0 else bufidx s1 + nat t)"
    by (auto simp: payload_def n_def)
  have b2: "bufidx s2 = (if bufidx s + 1 + n = 64 then 0 else bufidx s + 1 + n)"
    using b2' b1 nz tn t63 by (auto split: if_splits)
  have qq: "(case bits of Some bs \<Rightarrow> ublast_queue_bytes (Some (drop (nat i) bs)) t s1
             | None \<Rightarrow> ublast_queue_bytes (Some (replicate BUF_LEN 0)) t s1) = Some s2"
    using q by (simp add: src_def split: option.splits)
  have keep: "sent s1 \<noteq> sent s \<longrightarrow> payload = []"
  proof
    assume ne: "sent s1 \<noteq> sent s"
    with a1 have "pending s1 = []" by (auto simp: appended_def)
    with ready_pending_length [OF r1] b1 have "bufidx s = 63" by (auto split: if_splits)
    with nz show "payload = []" by (simp add: payload_def block_def)
  qed
  from appended_trans [OF a1 a2 keep] have a12: "appended s (h # payload) s2" by simp
  have pl: "payload = (case bits of Some bs \<Rightarrow> block (drop (nat i) bs) n | None \<Rightarrow> replicate n 0)"
    using t63 tn by (auto simp: payload_def src_def block_def BUF_LEN_def split: option.splits)
  have sz: "bufidx s + 1 + n \<le> 64" using t63 tn by simp
  have c2: "int n = MIN_macro (63 - int (bufidx s)) (int nb8 - i)" using t_eq tn by simp
  have c3: "n \<le> 63" using t63 tn by simp
  show ?thesis
  proof (cases rd)
    case False
    then have fin: "tdi_burst bits rd nb8 i tdos s = Some (int n, tdos, s2)"
      unfolding tdi_burst_def Let_def t_def [symmetric] hw qq by (simp add: tn)
    from a12 have "appended s ((if rd then SHMODE OR READ OR of_nat n else SHMODE OR of_nat n)
                  # (case bits of Some bs \<Rightarrow> block (drop (nat i) bs) n
                     | None \<Rightarrow> replicate n 0)) s2"
      by (simp only: h_def pl)
    moreover have "bufidx s2 = (if rd \<or> bufidx s + 1 + n = 64 then 0 else bufidx s + 1 + n)"
      using b2 False by simp
    ultimately show ?thesis using fin c2 c3 nz sz r2 by blast
  next
    case True
    obtain ret tdos' s3 where rb: "ublast_read_byteshifted_tdos (nat i) t tdos s2 = (ret, tdos', s3)"
      by (cases "ublast_read_byteshifted_tdos (nat i) t tdos s2") auto
    from read_byteshifted_frame [OF r2 rb] have r3: "ready s3" and a3: "appended s2 [] s3"
      and b3: "bufidx s3 = 0"
      by auto
    from appended_trans [OF a12 a3] have a13: "appended s (h # payload) s3" by simp
    from True rb have fin: "tdi_burst bits rd nb8 i tdos s = Some (int n, tdos', s3)"
      unfolding tdi_burst_def Let_def t_def [symmetric] hw qq by (simp add: tn)
    from a13 have "appended s ((if rd then SHMODE OR READ OR of_nat n else SHMODE OR of_nat n)
                  # (case bits of Some bs \<Rightarrow> block (drop (nat i) bs) n
                     | None \<Rightarrow> replicate n 0)) s3"
      by (simp only: h_def pl)
    moreover have "bufidx s3 = (if rd \<or> bufidx s + 1 + n = 64 then 0 else bufidx s + 1 + n)"
      using b3 True by simp
    ultimately show ?thesis using fin c2 c3 nz sz r3 by blast
  qed
qed


lemma header_low_bits:
  assumes "n \<le> 63"
  shows "unat ((SHMODE OR READ OR of_nat n :: u8) AND 0x3f) = n"
    and "unat ((SHMODE OR of_nat n :: u8) AND 0x3f) = n"
    and "(SHMODE OR READ OR of_nat n :: u8) AND SHMODE = SHMODE"
    and "(SHMODE OR of_nat n :: u8) AND SHMODE = SHMODE"
proof -
  have m: "(0x3f :: u8) = mask 6" by (simp add: mask_eq_exp_minus_1)
  have u: "unat (of_nat n :: u8) = n"
    using assms by (simp add: unsigned_of_nat take_bit_nat_eq_self)
  have low: "take_bit 6 (of_nat n :: u8) = of_nat n"
    using assms by (simp add: take_bit_of_nat take_bit_nat_eq_self)
  have "(SHMODE OR READ OR of_nat n :: u8) AND mask 6 = take_bit 6 (of_nat n)"
    by (simp add: SHMODE_def READ_def take_bit_eq_mask [symmetric] take_bit_push_bit)
  then show "unat ((SHMODE OR READ OR of_nat n :: u8) AND 0x3f) = n"
    unfolding m using low u by simp
  have "(SHMODE OR of_nat n :: u8) AND mask 6 = take_bit 6 (of_nat n)"
    by (simp add: SHMODE_def take_bit_eq_mask [symmetric] take_bit_push_bit)
  then show "unat ((SHMODE OR of_nat n :: u8) AND 0x3f) = n"
    unfolding m using low u by simp
  show "(SHMODE OR READ OR of_nat n :: u8) AND SHMODE = SHMODE" by simp
  show "(SHMODE OR of_nat n :: u8) AND SHMODE = SHMODE" by simp
qed


lemma tdi_byteshift_loop_returns:
  "ready s \<Longrightarrow> \<exists>tdos' s'. tdi_byteshift_loop bits rd nb8 i tdos s = Some (tdos', s') \<and> ready s'"
proof (induction bits rd nb8 i tdos s rule: tdi_byteshift_loop.induct)
  case (1 bits rd nb8 i tdos s)
  show ?case
  proof (cases "i < int nb8")
    case False
    then show ?thesis using "1.prems" by (subst tdi_byteshift_loop.simps) simp
  next
    case True
    from tdi_burst_frame_aux [OF "1.prems" True, of bits rd tdos] obtain n t1 s1 where
      b: "tdi_burst bits rd nb8 i tdos s = Some (int n, t1, s1)" and r1: "ready s1"
      by blast
    from "1.IH" [OF True b refl refl r1] obtain tdos' s' where
      "tdi_byteshift_loop bits rd nb8 (i + int n) t1 s1 = Some (tdos', s')" "ready s'"
      by blast
    with True b show ?thesis by (subst tdi_byteshift_loop.simps) simp
  qed
qed

lemma queue_tdi_returns:
  assumes "ready s"
  shows "ublast_queue_tdi bits n scan sh s \<noteq> None"
proof -
  from tdi_byteshift_loop_returns [OF assms] obtain tdos' s' where
    "tdi_byteshift_loop bits (scan = SCAN_IN \<or> scan = SCAN_IO) (fst (tdi_split n)) 0
       (replicate (n div 8 + 1) 0) s = Some (tdos', s')"
    by blast
  then show ?thesis
    by (simp add: ublast_queue_tdi_def Let_def split: prod.splits)
qed

lemma queue_byte_quiet:
  assumes "ready s" and "bufidx s < 63"
  shows "ready (ublast_queue_byte b s)" and "sent (ublast_queue_byte b s) = sent s"
    and "bufidx (ublast_queue_byte b s) = bufidx s + 1"
proof -
  from queue_byte_frame [OF assms(1), of b] assms(2)
  have r: "ready (ublast_queue_byte b s)" and a: "appended s [b] (ublast_queue_byte b s)"
    and i: "bufidx (ublast_queue_byte b s) = bufidx s + 1"
    by auto
  from ready_pending_length [OF r] i have "pending (ublast_queue_byte b s) \<noteq> []" by auto
  with a have "sent (ublast_queue_byte b s) = sent s" by (auto simp: appended_def)
  with r i show "ready (ublast_queue_byte b s)" "sent (ublast_queue_byte b s) = sent s"
    "bufidx (ublast_queue_byte b s) = bufidx s + 1" by auto
qed

lemma clock_tms_quiet:
  assumes "ready s" and "bufidx s + 2 \<le> 63"
  shows "ready (ublast_clock_tms t s) \<and> sent (ublast_clock_tms t s) = sent s
         \<and> bufidx (ublast_clock_tms t s) = bufidx s + 2"
proof -
  let ?s1 = "s\<lparr>tms := (if t \<noteq> 0 then 1 else 0), tdi := 0\<rparr>"
  let ?out = "ublast_build_out SCAN_OUT ?s1"
  have r1: "ready ?s1" and i1: "bufidx ?s1 < 63" and e1: "sent ?s1 = sent s"
    using assms by (simp_all add: ready_def sent_def)
  note q1 = queue_byte_quiet [OF r1 i1, of ?out]
  have i2: "bufidx (ublast_queue_byte ?out ?s1) < 63" using q1(3) assms(2) by simp
  note q2 = queue_byte_quiet [OF q1(1) i2, of "?out OR TCK"]
  show ?thesis
    using q1 q2 e1 by (simp add: ublast_clock_tms_def Let_def)
qed

lemma fold_clock_tms_quiet:
  "ready s \<Longrightarrow> bufidx s + 2 * length js \<le> 63 \<Longrightarrow>
   ready (fold (\<lambda>i. ublast_clock_tms (f i)) js s)
   \<and> sent (fold (\<lambda>i. ublast_clock_tms (f i)) js s) = sent s
   \<and> bufidx (fold (\<lambda>i. ublast_clock_tms (f i)) js s) = bufidx s + 2 * length js"
proof (induction js arbitrary: s)
  case Nil
  then show ?case by simp
next
  case (Cons j js)
  from Cons.prems have "bufidx s + 2 \<le> 63" by simp
  from clock_tms_quiet [OF Cons.prems(1) this, of "f j"]
  have r: "ready (ublast_clock_tms (f j) s)" and e: "sent (ublast_clock_tms (f j) s) = sent s"
    and i: "bufidx (ublast_clock_tms (f j) s) = bufidx s + 2" by auto
  from Cons.prems(2) i have "bufidx (ublast_clock_tms (f j) s) + 2 * length js \<le> 63" by simp
  from Cons.IH [OF r this] e i show ?case by simp
qed

lemma tms_seq_quiet:
  assumes "ready s" and "bufidx s + 2 * nat n + 1 \<le> 63"
  shows "ready (ublast_tms_seq bits n s) \<and> sent (ublast_tms_seq bits n s) = sent s
         \<and> bufidx (ublast_tms_seq bits n s) = bufidx s + 2 * nat n + 1"
proof -
  let ?f = "\<lambda>i. uint (drop_bit (i mod 8) (byte_at bits (i div 8)) AND 1)"
  let ?s1 = "fold (\<lambda>i. ublast_clock_tms (?f i)) [0..<nat n] s"
  from assms(2) have "bufidx s + 2 * length [0..<nat n] \<le> 63" by simp
  from fold_clock_tms_quiet [OF assms(1) this, of ?f]
  have r: "ready ?s1" and e: "sent ?s1 = sent s" and i: "bufidx ?s1 = bufidx s + 2 * nat n"
    by auto
  from i assms(2) have "bufidx ?s1 < 63" by simp
  from queue_byte_quiet [OF r this, of "ublast_build_out SCAN_OUT ?s1"] e i
  show ?thesis by (simp add: ublast_tms_seq_def ublast_idle_clock_def)
qed

lemma example_session_ready: "ready example_session \<and> sent example_session = []
  \<and> bufidx example_session = 0 \<and> pending example_session = []"
  by (simp add: ready_def sent_def pending_def example_session_def example_drv_def BUF_LEN_def)


text \<open>
  Clocking TMS keeps a session ready. A scan on a ready session returns if its command has
  a buffer or no bits: the ways out of the engine are the \<^verbatim>\<open>exit(-1)\<close> of
  \<^verbatim>\<open>ublast_queue_bytes\<close>, which a ready session never reaches, and the dump of a null buffer.
\<close>

lemma ready_clock_tms: "ready s \<Longrightarrow> ready (ublast_clock_tms t s)"
proof -
  assume r: "ready s"
  let ?s1 = "s\<lparr>tms := (if t \<noteq> 0 then 1 else 0), tdi := 0\<rparr>"
  from r have "ready ?s1" by (simp add: ready_def)
  from queue_byte_frame(1) [OF queue_byte_frame(1) [OF this]]
  show ?thesis by (simp add: ublast_clock_tms_def Let_def)
qed

lemma ready_fold_clock_tms:
  "ready s \<Longrightarrow> ready (fold (\<lambda>i. ublast_clock_tms (f i)) js s)"
  by (induction js arbitrary: s) (simp_all add: ready_clock_tms)

lemma ready_tms_seq: "ready s \<Longrightarrow> ready (ublast_tms_seq bits n s)"
  by (simp add: ublast_tms_seq_def ublast_idle_clock_def ready_fold_clock_tms queue_byte_frame(1))

lemma ready_state_move: "ready s \<Longrightarrow> ready (ublast_state_move host st s)"
  using ready_tms_seq [of s "[tap_get_tms_path host (tap s) st]" "tap_get_tms_path_len host (tap s) st"]
  by (simp add: ublast_state_move_def Let_def ready_def)

lemma scan_returns:
  assumes "ready s" and "payload cmd \<noteq> None \<or> num_bits cmd = 0"
  shows "\<exists>ret b s'. ublast_scan host cmd s = Some (ret, b, s')"
proof -
  let ?s1 = "if ir_scan cmd then ublast_state_move host TAP_IRSHIFT s
             else ublast_state_move host TAP_DRSHIFT s"
  let ?sh = "if end_state cmd = TAP_DRSHIFT then NO_TAP_SHIFT else TAP_SHIFT"
  have "\<exists>lg. hexdump (payload cmd) (DIV_ROUND_UP (num_bits cmd) 8) = Some lg"
  proof (cases "payload cmd")
    case None
    with assms(2) have "num_bits cmd = 0" by simp
    with None show ?thesis by (simp add: hexdump_def DIV_ROUND_UP_def)
  next
    case (Some bs)
    then show ?thesis by (simp add: hexdump_def)
  qed
  then obtain lg where
    hx: "hexdump (payload cmd) (DIV_ROUND_UP (num_bits cmd) 8) = Some lg" by blast
  have "ready ?s1" using ready_state_move [OF assms(1)] by simp
  from queue_tdi_returns [OF this] obtain b2 s2 where
    "ublast_queue_tdi (payload cmd) (num_bits cmd) (direction cmd) ?sh ?s1 = Some (b2, s2)"
    by fastforce
  with hx show ?thesis
    unfolding ublast_scan_def jtag_build_buffer_def jtag_scan_type_def Let_def
    by (simp split: if_splits)
qed

lemma scan_null_buffer:
  assumes "payload cmd = None" and "0 < num_bits cmd"
  shows "ublast_scan host cmd s = None"
proof -
  from assms(2) have "DIV_ROUND_UP (num_bits cmd) 8 \<noteq> 0"
    by (simp add: DIV_ROUND_UP_def)
  with assms(1) have "hexdump (payload cmd) (DIV_ROUND_UP (num_bits cmd) 8) = None"
    by (simp add: hexdump_def)
  then show ?thesis
    unfolding ublast_scan_def jtag_build_buffer_def jtag_scan_type_def Let_def by simp
qed

subsection \<open>Claim C1: the frame of a byte-shift burst\<close>

text \<open>
  C1, as stated, fails in its lower bound \<open>1 \<le> N\<close>. After a TMS command of 31 bits the write
  buffer holds 63 bytes. The first round of the byte-shift loop of 16 stable clocks
  (\<open>nb8 = 1\<close>) then finds one free place: \<open>trans = MIN(nbfree - 1, nb8 - i) = 0\<close>, and the
  header \<^verbatim>\<open>SHMODE | 0\<close> closes the packet with no payload behind it.
\<close>

theorem burst_with_zero_length_header:
  "map_option (\<lambda>(n, t, s'). (n, map last (take 1 (sent s'))))
     (tdi_burst None False 1 0 [0, 0, 0] (ublast_tms [0, 0, 0, 0] 31 example_session))
   = Some (0, [SHMODE])"
proof -
  let ?s = "ublast_tms [0, 0, 0, 0] 31 example_session"
  from example_session_ready
  have "ready example_session" and "bufidx example_session + 2 * nat 31 + 1 \<le> 63"
    by simp_all
  from tms_seq_quiet [OF this, of "[0, 0, 0, 0]"] example_session_ready
  have r: "ready ?s" and e: "sent ?s = []" and i: "bufidx ?s = 63"
    by (simp_all add: ublast_tms_def)
  have lt: "(0::int) < int (1::nat)" by simp
  from tdi_burst_frame_aux [OF r lt, of None False "[0, 0, 0]"] i obtain t s' where
    b: "tdi_burst None False 1 0 [0, 0, 0] ?s = Some (0, t, s')"
    and r': "ready s'" and i': "bufidx s' = 0"
    and a: "appended ?s [SHMODE] s'"
    by auto
  from ready_pending_length [OF r'] i' have "pending s' = []" by simp
  with a e have "take 1 (sent s') = [pending ?s @ [SHMODE]]"
    by (auto simp: appended_def)
  with b show ?thesis by simp
qed

text \<open>
  C1 (amended): every round of the byte-shift loop of \<^verbatim>\<open>ublast_queue_tdi\<close>, entered with a
  ready session, queues exactly one header byte \<open>h\<close> with bit 7 set; its low six bits \<open>N\<close>
  satisfy \<open>0 \<le> N \<le> 63\<close>, with \<open>N = 0\<close> exactly when the write buffer has a single free place;
  exactly \<open>N\<close> payload bytes follow it, and header and payload lie in one packet of at most
  64 bytes. The session is ready again afterwards, so this holds for every round.
\<close>

theorem tdi_burst_frame:
  assumes "ready s" and "i < int nb8"
  shows "\<exists>n h payload tdos' s'.
      tdi_burst bits rd nb8 i tdos s = Some (int n, tdos', s')
    \<and> h = (if rd then SHMODE OR READ OR of_nat n else SHMODE OR of_nat n)
    \<and> payload = (case bits of Some bs \<Rightarrow> block (drop (nat i) bs) n | None \<Rightarrow> replicate n 0)
    \<and> unat (h AND 0x3f) = n \<and> h AND SHMODE = SHMODE
    \<and> n \<le> 63 \<and> (n = 0) = (bufidx s = 63)
    \<and> length payload = n \<and> length (pending s @ h # payload) \<le> 64
    \<and> appended s (h # payload) s' \<and> ready s'
    \<and> bufidx s' = (if rd \<or> bufidx s + 1 + n = 64 then 0 else bufidx s + 1 + n)"
proof -
  from tdi_burst_frame_aux [OF assms, of bits rd tdos] obtain n tdos' s' where
    b: "tdi_burst bits rd nb8 i tdos s = Some (int n, tdos', s')"
    and n1: "n \<le> 63" and n2: "(n = 0) = (bufidx s = 63)" and n3: "bufidx s + 1 + n \<le> 64"
    and r': "ready s'"
    and i': "bufidx s' = (if rd \<or> bufidx s + 1 + n = 64 then 0 else bufidx s + 1 + n)"
    and a: "appended s ((if rd then SHMODE OR READ OR of_nat n else SHMODE OR of_nat n)
                  # (case bits of Some bs \<Rightarrow> block (drop (nat i) bs) n
                     | None \<Rightarrow> replicate n 0)) s'"
    by blast
  define h :: u8 where "h = (if rd then SHMODE OR READ OR of_nat n else SHMODE OR of_nat n)"
  define payload where
    "payload = (case bits of Some bs \<Rightarrow> block (drop (nat i) bs) n | None \<Rightarrow> replicate n 0)"
  have lp: "length payload = n"
    by (cases bits) (simp_all add: payload_def block_def)
  have hb1: "unat (h AND 0x3f) = n" and hb2: "h AND SHMODE = SHMODE"
    using header_low_bits [OF n1] by (simp_all add: h_def)
  have len: "length (pending s @ h # payload) \<le> 64"
    using ready_pending_length [OF assms(1)] lp n3 by simp
  from a have a': "appended s (h # payload) s'" by (simp only: h_def payload_def)
  have body: "tdi_burst bits rd nb8 i tdos s = Some (int n, tdos', s')
    \<and> h = (if rd then SHMODE OR READ OR of_nat n else SHMODE OR of_nat n)
    \<and> payload = (case bits of Some bs \<Rightarrow> block (drop (nat i) bs) n | None \<Rightarrow> replicate n 0)
    \<and> unat (h AND 0x3f) = n \<and> h AND SHMODE = SHMODE
    \<and> n \<le> 63 \<and> (n = 0) = (bufidx s = 63)
    \<and> length payload = n \<and> length (pending s @ h # payload) \<le> 64
    \<and> appended s (h # payload) s' \<and> ready s'
    \<and> bufidx s' = (if rd \<or> bufidx s + 1 + n = 64 then 0 else bufidx s + 1 + n)"
    by (intro conjI; fact b h_def payload_def hb1 hb2 n1 n2 lp len a' r' i')
  show ?thesis
    by (rule exI [of _ n], rule exI [of _ h], rule exI [of _ payload], rule exI [of _ tdos'],
        rule exI [of _ s']) (rule body)
qed

theorem tdi_burst_frame_witness:
  "map_option (\<lambda>(n, t, s'). (n, pending s', sent s'))
     (tdi_burst (Some [0xaa, 0x55, 0x01]) False 2 0 [0, 0, 0] example_session)
   = Some (2, [0x82, 0xaa, 0x55], [])"
proof -
  have lt: "(0::int) < int (2::nat)" by simp
  from example_session_ready have r: "ready example_session" by simp
  from tdi_burst_frame [OF r lt, of "Some [0xaa, 0x55, 0x01]" False "[0, 0, 0]"]
  obtain n h payload tdos' s' where
    b: "tdi_burst (Some [0xaa, 0x55, 0x01]) False 2 0 [0, 0, 0] example_session
          = Some (int n, tdos', s')"
    and h: "h = (if False then SHMODE OR READ OR of_nat n else SHMODE OR of_nat n)"
    and p: "payload = (case Some [0xaa, 0x55, 0x01] of Some bs \<Rightarrow> block (drop (nat 0) bs) n
                       | None \<Rightarrow> replicate n 0)"
    and a: "appended example_session (h # payload) s'" and r': "ready s'"
    and i': "bufidx s' = (if False \<or> bufidx example_session + 1 + n = 64 then 0
                          else bufidx example_session + 1 + n)"
    by blast
  have "nb_buf_remaining example_session = 64"
    by (simp add: nb_buf_remaining_def example_session_def BUF_LEN_def)
  with b have "int n = 2"
    by (auto simp: tdi_burst_def Let_def MIN_macro_def split: option.splits prod.splits if_splits)
  then have n2: "n = 2" by simp
  from i' n2 example_session_ready have "bufidx s' = 3" by simp
  with ready_pending_length [OF r'] have "pending s' \<noteq> []" by auto
  with a example_session_ready have "pending s' = h # payload \<and> sent s' = []"
    by (auto simp: appended_def)
  with b n2 h p show ?thesis
    by (simp add: SHMODE_def block_def)
qed


subsection \<open>Claim C3: the recorded TAP state after a scan\<close>

text \<open>
  C3, as stated, fails for an IR scan that asks to stay in shift (\<^verbatim>\<open>end_state == TAP_DRSHIFT\<close>):
  the scan moves to \<^verbatim>\<open>TAP_IRSHIFT\<close> and nothing records another state afterwards.
\<close>

theorem ir_scan_hold_records_irshift:
  "map_option (\<lambda>(ret, b, s'). tap s') (ublast_scan example_host (example_scan True TAP_DRSHIFT)
     example_session) = Some TAP_IRSHIFT"
proof -
  from example_session_ready have "ready example_session" by simp
  moreover have "payload (example_scan True TAP_DRSHIFT) \<noteq> None
      \<or> num_bits (example_scan True TAP_DRSHIFT) = 0"
    by (simp add: example_scan_def)
  ultimately obtain ret b s' where
    r: "ublast_scan example_host (example_scan True TAP_DRSHIFT) example_session = Some (ret, b, s')"
    using scan_returns by blast
  from scan_tap [OF r] r show ?thesis by (simp add: example_scan_def)
qed

text \<open>
  C3 (amended): for every scan command and every session, after \<^verbatim>\<open>ublast_scan(cmd)\<close> returns
  the recorded TAP state equals \<^verbatim>\<open>cmd.end_state\<close> if that is not \<^verbatim>\<open>DRSHIFT\<close>; if it is
  \<^verbatim>\<open>DRSHIFT\<close>, the recorded state is \<^verbatim>\<open>DRSHIFT\<close> for a DR scan and \<^verbatim>\<open>IRSHIFT\<close> for an IR scan.
  The call does return on a ready session when the command has a buffer or no bits; with a
  null buffer and at least one bit it never returns.
\<close>

theorem ublast_scan_end_state:
  "(\<forall>ret b s'. ublast_scan host cmd s = Some (ret, b, s') \<longrightarrow>
       tap s' = (if end_state cmd \<noteq> TAP_DRSHIFT then end_state cmd
                 else if ir_scan cmd then TAP_IRSHIFT else TAP_DRSHIFT))
   \<and> (ready s \<and> (payload cmd \<noteq> None \<or> num_bits cmd = 0) \<longrightarrow>
       ublast_scan host cmd s \<noteq> None)
   \<and> (payload cmd = None \<and> 0 < num_bits cmd \<longrightarrow> ublast_scan host cmd s = None)"
proof (intro conjI allI impI)
  fix ret b s'
  assume "ublast_scan host cmd s = Some (ret, b, s')"
  then show "tap s' = (if end_state cmd \<noteq> TAP_DRSHIFT then end_state cmd
                       else if ir_scan cmd then TAP_IRSHIFT else TAP_DRSHIFT)"
    by (rule scan_tap)
next
  assume "ready s \<and> (payload cmd \<noteq> None \<or> num_bits cmd = 0)"
  then have "\<exists>ret b s'. ublast_scan host cmd s = Some (ret, b, s')"
    using scan_returns by blast
  then show "ublast_scan host cmd s \<noteq> None" by auto
next
  assume "payload cmd = None \<and> 0 < num_bits cmd"
  then show "ublast_scan host cmd s = None"
    using scan_null_buffer by blast
qed

theorem ublast_scan_end_state_witness:
  "map_option (\<lambda>(ret, b, s'). tap s') (ublast_scan example_host (example_scan False TAP_IDLE)
     example_session) = Some TAP_IDLE
   \<and> map_option (\<lambda>(ret, b, s'). tap s') (ublast_scan example_host (example_scan False TAP_DRSHIFT)
     example_session) = Some TAP_DRSHIFT
   \<and> ublast_scan example_host ((example_scan False TAP_IDLE)\<lparr>payload := None\<rparr>) example_session
     = None"
proof -
  from example_session_ready have r: "ready example_session" by simp
  from ublast_scan_end_state [of example_host "example_scan False TAP_IDLE" example_session]
    ublast_scan_end_state [of example_host "example_scan False TAP_DRSHIFT" example_session]
    ublast_scan_end_state [of example_host "(example_scan False TAP_IDLE)\<lparr>payload := None\<rparr>"
      example_session] r
  show ?thesis by (auto simp: example_scan_def)
qed


section \<open>MIPS32 EJTAG processor access (mips32\_pracc.c)\<close>

subsection \<open>The EJTAG link\<close>

text \<open>
  \<^verbatim>\<open>struct mips_ejtag\<close> and the scan primitives of \<^verbatim>\<open>mips_ejtag.c\<close> are outside these sources.
  The link is modelled by the answers it will still give: every \<^verbatim>\<open>mips_ejtag_drscan_32\<close>
  takes the next pair (return code, captured word), every \<^verbatim>\<open>mips_ejtag_fastdata_scan\<close> the
  next pair of its own list, every \<^verbatim>\<open>jtag_execute_queue\<close> the next return code, and every
  \<^verbatim>\<open>timeval_ms\<close> the next reading of the clock. A link whose answers are used up fails each
  call with \<^verbatim>\<open>ERROR_JTAG_DEVICE_ERROR\<close>, and the clock then stands still. \<open>ops\<close> records
  every operation issued on the link, in order.
\<close>

datatype ejtag_inst = EJTAG_INST_ADDRESS | EJTAG_INST_DATA | EJTAG_INST_CONTROL
  | EJTAG_INST_FASTDATA

datatype ejtag_op = Set_instr ejtag_inst | Drscan_32 u32 | Drscan_32_out u32
  | Fastdata_scan int u32 | Execute_queue

record mips_ejtag =
  ejtag_ctrl :: u32
  fast_access_save :: int
  scan_answers :: "(retval \<times> u32) list"
  fastdata_answers :: "(retval \<times> u32) list"
  queue_answers :: "retval list"
  timeline :: "int list"
  now :: int
  ops :: "ejtag_op list"

definition mips_ejtag_set_instr :: "ejtag_inst \<Rightarrow> mips_ejtag \<Rightarrow> mips_ejtag" where
  "mips_ejtag_set_instr new_instr l = l\<lparr>ops := ops l @ [Set_instr new_instr]\<rparr>"

definition mips_ejtag_drscan_32 :: "u32 \<Rightarrow> mips_ejtag \<Rightarrow> retval \<times> u32 \<times> mips_ejtag" where
  "mips_ejtag_drscan_32 data l =
     (case scan_answers l of
        [] \<Rightarrow> (ERROR_JTAG_DEVICE_ERROR, data, l\<lparr>ops := ops l @ [Drscan_32 data]\<rparr>)
      | (r, v) # rest \<Rightarrow> (r, v, l\<lparr>scan_answers := rest, ops := ops l @ [Drscan_32 data]\<rparr>))"

definition mips_ejtag_drscan_32_out :: "u32 \<Rightarrow> mips_ejtag \<Rightarrow> mips_ejtag" where
  "mips_ejtag_drscan_32_out data l = l\<lparr>ops := ops l @ [Drscan_32_out data]\<rparr>"

definition mips_ejtag_fastdata_scan :: "int \<Rightarrow> u32 \<Rightarrow> mips_ejtag \<Rightarrow> retval \<times> u32 \<times> mips_ejtag" where
  "mips_ejtag_fastdata_scan write_t data l =
     (case fastdata_answers l of
        [] \<Rightarrow> (ERROR_JTAG_DEVICE_ERROR, data, l\<lparr>ops := ops l @ [Fastdata_scan write_t data]\<rparr>)
      | (r, v) # rest \<Rightarrow>
          (r, (if write_t \<noteq> 0 then data else v),
           l\<lparr>fastdata_answers := rest, ops := ops l @ [Fastdata_scan write_t data]\<rparr>))"

definition jtag_execute_queue :: "mips_ejtag \<Rightarrow> retval \<times> mips_ejtag" where
  "jtag_execute_queue l =
     (case queue_answers l of
        [] \<Rightarrow> (ERROR_JTAG_DEVICE_ERROR, l\<lparr>ops := ops l @ [Execute_queue]\<rparr>)
      | r # rest \<Rightarrow> (r, l\<lparr>queue_answers := rest, ops := ops l @ [Execute_queue]\<rparr>))"

definition timeval_ms :: "mips_ejtag \<Rightarrow> int \<times> mips_ejtag" where
  "timeval_ms l =
     (case timeline l of
        [] \<Rightarrow> (now l, l)
      | t # rest \<Rightarrow> (t, l\<lparr>timeline := rest, now := t\<rparr>))"

subsection \<open>The header \<^verbatim>\<open>mips32_pracc.h\<close> and the encodings of \<^verbatim>\<open>mips32.h\<close>\<close>

text \<open>
  The constants and macros of \<^verbatim>\<open>mips32_pracc.h\<close> and \<^verbatim>\<open>mips_ejtag.h\<close> that the code uses are
  not part of the sources; they are parameters of the model.
\<close>

record pracc_h =
  EJTAG_CTRL_PRACC :: u32
  EJTAG_CTRL_PRNW :: u32
  MIPS32_PRACC_TEXT :: u32
  MIPS32_PRACC_STACK :: u32
  MIPS32_PRACC_PARAM_IN :: u32
  MIPS32_PRACC_PARAM_OUT :: u32
  MIPS32_PRACC_FASTDATA_AREA :: u32
  MIPS32_FASTDATA_HANDLER_SIZE :: u32
  UPPER16 :: "u32 \<Rightarrow> u32"
  LOWER16 :: "u32 \<Rightarrow> u32"
  NEG16 :: "u32 \<Rightarrow> u32"

definition MIPS32NUMCOREREGS :: int where "MIPS32NUMCOREREGS = 38"

definition MIPS32_OP_BEQ :: u32 where "MIPS32_OP_BEQ = 0x04"
definition MIPS32_OP_BNE :: u32 where "MIPS32_OP_BNE = 0x05"
definition MIPS32_OP_ADDI :: u32 where "MIPS32_OP_ADDI = 0x08"
definition MIPS32_OP_COP0 :: u32 where "MIPS32_OP_COP0 = 0x10"
definition MIPS32_OP_JR :: u32 where "MIPS32_OP_JR = 0x08"
definition MIPS32_OP_LUI :: u32 where "MIPS32_OP_LUI = 0x0F"
definition MIPS32_OP_LW :: u32 where "MIPS32_OP_LW = 0x23"
definition MIPS32_OP_LBU :: u32 where "MIPS32_OP_LBU = 0x24"
definition MIPS32_OP_LHU :: u32 where "MIPS32_OP_LHU = 0x25"
definition MIPS32_OP_MFHI :: u32 where "MIPS32_OP_MFHI = 0x10"
definition MIPS32_OP_MTHI :: u32 where "MIPS32_OP_MTHI = 0x11"
definition MIPS32_OP_MFLO :: u32 where "MIPS32_OP_MFLO = 0x12"
definition MIPS32_OP_MTLO :: u32 where "MIPS32_OP_MTLO = 0x13"
definition MIPS32_OP_SB :: u32 where "MIPS32_OP_SB = 0x28"
definition MIPS32_OP_SH :: u32 where "MIPS32_OP_SH = 0x29"
definition MIPS32_OP_SW :: u32 where "MIPS32_OP_SW = 0x2B"
definition MIPS32_OP_ORI :: u32 where "MIPS32_OP_ORI = 0x0D"
definition MIPS32_COP0_MF :: u32 where "MIPS32_COP0_MF = 0x00"
definition MIPS32_COP0_MT :: u32 where "MIPS32_COP0_MT = 0x04"

definition MIPS32_R_INST :: "u32 \<Rightarrow> u32 \<Rightarrow> u32 \<Rightarrow> u32 \<Rightarrow> u32 \<Rightarrow> u32 \<Rightarrow> u32" where
  "MIPS32_R_INST opcode rs rt rd shamt funct =
     push_bit 26 opcode OR push_bit 21 rs OR push_bit 16 rt OR push_bit 11 rd
     OR push_bit 6 shamt OR funct"

definition MIPS32_I_INST :: "u32 \<Rightarrow> u32 \<Rightarrow> u32 \<Rightarrow> u32 \<Rightarrow> u32" where
  "MIPS32_I_INST opcode rs rt immd =
     push_bit 26 opcode OR push_bit 21 rs OR push_bit 16 rt OR immd"

definition MIPS32_NOP :: u32 where "MIPS32_NOP = 0"

definition MIPS32_ADDI :: "u32 \<Rightarrow> u32 \<Rightarrow> u32 \<Rightarrow> u32" where
  "MIPS32_ADDI tar src val = MIPS32_I_INST MIPS32_OP_ADDI src tar val"

definition MIPS32_BEQ :: "u32 \<Rightarrow> u32 \<Rightarrow> u32 \<Rightarrow> u32" where
  "MIPS32_BEQ src tar off = MIPS32_I_INST MIPS32_OP_BEQ src tar off"

definition MIPS32_B :: "u32 \<Rightarrow> u32" where
  "MIPS32_B off = MIPS32_BEQ 0 0 off"

definition MIPS32_BNE :: "u32 \<Rightarrow> u32 \<Rightarrow> u32 \<Rightarrow> u32" where
  "MIPS32_BNE src tar off = MIPS32_I_INST MIPS32_OP_BNE src tar off"

definition MIPS32_JR :: "u32 \<Rightarrow> u32" where
  "MIPS32_JR reg = MIPS32_R_INST 0 reg 0 0 0 MIPS32_OP_JR"

definition MIPS32_MFC0 :: "u32 \<Rightarrow> u32 \<Rightarrow> u32 \<Rightarrow> u32" where
  "MIPS32_MFC0 gpr cpr sel = MIPS32_R_INST MIPS32_OP_COP0 MIPS32_COP0_MF gpr cpr 0 sel"

definition MIPS32_MTC0 :: "u32 \<Rightarrow> u32 \<Rightarrow> u32 \<Rightarrow> u32" where
  "MIPS32_MTC0 gpr cpr sel = MIPS32_R_INST MIPS32_OP_COP0 MIPS32_COP0_MT gpr cpr 0 sel"

definition MIPS32_LBU :: "u32 \<Rightarrow> u32 \<Rightarrow> u32 \<Rightarrow> u32" where
  "MIPS32_LBU reg off base = MIPS32_I_INST MIPS32_OP_LBU base reg off"

definition MIPS32_LHU :: "u32 \<Rightarrow> u32 \<Rightarrow> u32 \<Rightarrow> u32" where
  "MIPS32_LHU reg off base = MIPS32_I_INST MIPS32_OP_LHU base reg off"

definition MIPS32_LUI :: "u32 \<Rightarrow> u32 \<Rightarrow> u32" where
  "MIPS32_LUI reg val = MIPS32_I_INST MIPS32_OP_LUI 0 reg val"

definition MIPS32_LW :: "u32 \<Rightarrow> u32 \<Rightarrow> u32 \<Rightarrow> u32" where
  "MIPS32_LW reg off base = MIPS32_I_INST MIPS32_OP_LW base reg off"

definition MIPS32_MFLO :: "u32 \<Rightarrow> u32" where
  "MIPS32_MFLO reg = MIPS32_R_INST 0 0 0 reg 0 MIPS32_OP_MFLO"

definition MIPS32_MFHI :: "u32 \<Rightarrow> u32" where
  "MIPS32_MFHI reg = MIPS32_R_INST 0 0 0 reg 0 MIPS32_OP_MFHI"

definition MIPS32_MTLO :: "u32 \<Rightarrow> u32" where
  "MIPS32_MTLO reg = MIPS32_R_INST 0 reg 0 0 0 MIPS32_OP_MTLO"

definition MIPS32_MTHI :: "u32 \<Rightarrow> u32" where
  "MIPS32_MTHI reg = MIPS32_R_INST 0 reg 0 0 0 MIPS32_OP_MTHI"

definition MIPS32_ORI :: "u32 \<Rightarrow> u32 \<Rightarrow> u32 \<Rightarrow> u32" where
  "MIPS32_ORI tar src val = MIPS32_I_INST MIPS32_OP_ORI src tar val"

definition MIPS32_SB :: "u32 \<Rightarrow> u32 \<Rightarrow> u32 \<Rightarrow> u32" where
  "MIPS32_SB reg off base = MIPS32_I_INST MIPS32_OP_SB base reg off"

definition MIPS32_SH :: "u32 \<Rightarrow> u32 \<Rightarrow> u32 \<Rightarrow> u32" where
  "MIPS32_SH reg off base = MIPS32_I_INST MIPS32_OP_SH base reg off"

definition MIPS32_SW :: "u32 \<Rightarrow> u32 \<Rightarrow> u32 \<Rightarrow> u32" where
  "MIPS32_SW reg off base = MIPS32_I_INST MIPS32_OP_SW base reg off"

subsection \<open>The PrAcc executor\<close>

text \<open>
  \<^verbatim>\<open>struct mips32_pracc_context\<close>; the arrays behind the pointers are lists, a null pointer
  is the empty list, and the handle \<^verbatim>\<open>ejtag_info\<close> is passed beside the context.
\<close>

record mips32_pracc_context =
  local_iparam :: "u32 list"
  num_iparam :: int
  local_oparam :: "u32 list"
  num_oparam :: int
  code :: "u32 list"
  code_len :: int
  stack :: "u32 list"
  stack_offset :: int

text \<open>
  An access outside an array is undefined behaviour in C. The model stops there with a
  fault that names the array and the index.
\<close>

datatype fault = Bad_iparam_index int | Bad_oparam_index int | Bad_code_index int
  | Bad_stack_index int | Bad_buffer_index int

definition fetch :: "(int \<Rightarrow> fault) \<Rightarrow> u32 list \<Rightarrow> int \<Rightarrow> fault + u32" where
  "fetch bad xs i = (if 0 \<le> i \<and> i < int (length xs) then Inr (xs ! nat i) else Inl (bad i))"

definition store :: "(int \<Rightarrow> fault) \<Rightarrow> u32 list \<Rightarrow> int \<Rightarrow> u32 \<Rightarrow> fault + u32 list" where
  "store bad xs i v = (if 0 \<le> i \<and> i < int (length xs) then Inr (xs[nat i := v]) else Inl (bad i))"

text \<open>
  The range test \<^verbatim>\<open>(address >= BASE) && (address <= BASE + num * 4)\<close> and the index
  \<^verbatim>\<open>(address - BASE) / 4\<close>, both in unsigned 32-bit arithmetic.
\<close>

definition in_arena :: "u32 \<Rightarrow> u32 \<Rightarrow> int \<Rightarrow> bool" where
  "in_arena address base num = (address \<ge> base \<and> address \<le> base + word_of_int (num * 4))"

definition arena_offset :: "u32 \<Rightarrow> u32 \<Rightarrow> int" where
  "arena_offset address base = uint ((address - base) div 4)"

function wait_loop :: "pracc_h \<Rightarrow> int \<Rightarrow> u32 \<Rightarrow> mips_ejtag \<Rightarrow> retval \<times> u32 \<times> mips_ejtag" where
  "wait_loop h then_ms ctrl l =
     (case mips_ejtag_drscan_32 ctrl l of
        (retval, ctrl', l1) \<Rightarrow>
          if retval \<noteq> ERROR_OK then (retval, ctrl', l1)
          else if ctrl' AND EJTAG_CTRL_PRACC h \<noteq> 0 then (ERROR_OK, ctrl', l1)
          else (case timeval_ms l1 of
                  (t, l2) \<Rightarrow>
                    if sint (word_of_int (t - then_ms) :: 32 word) > 1000
                    then (ERROR_JTAG_DEVICE_ERROR, ctrl', l2)
                    else wait_loop h then_ms ctrl' l2))"
  by pat_completeness auto
termination
  by (relation "measure (\<lambda>(h, t, c, l). length (scan_answers l))")
     (auto simp: mips_ejtag_drscan_32_def timeval_ms_def split: list.splits prod.splits)

text \<open>
  \<^verbatim>\<open>wait_for_pracc_rw\<close>; the second component is what is stored through \<^verbatim>\<open>ctrl\<close> (read by
  the caller only when the return code is \<^verbatim>\<open>ERROR_OK\<close>).
\<close>

definition wait_for_pracc_rw :: "pracc_h \<Rightarrow> mips_ejtag \<Rightarrow> retval \<times> u32 \<times> mips_ejtag" where
  "wait_for_pracc_rw h l =
     (case timeval_ms l of
        (then_ms, l0) \<Rightarrow>
          let l1 = mips_ejtag_set_instr EJTAG_INST_CONTROL l0;
              ctrl = ejtag_ctrl l1
          in case jtag_execute_queue l1 of
               (retval, l2) \<Rightarrow>
                 if retval \<noteq> ERROR_OK then (retval, ctrl, l2)
                 else wait_loop h then_ms ctrl l2)"

definition mips32_pracc_exec_read ::
  "pracc_h \<Rightarrow> mips32_pracc_context \<Rightarrow> u32 \<Rightarrow> mips_ejtag
   \<Rightarrow> fault + (retval \<times> mips32_pracc_context \<times> mips_ejtag)" where
  "mips32_pracc_exec_read h ctx address l =
     (let looked =
        (if in_arena address (MIPS32_PRACC_PARAM_IN h) (num_iparam ctx) then
           map_sum id (\<lambda>d. Some (d, ctx))
             (fetch Bad_iparam_index (local_iparam ctx)
                (arena_offset address (MIPS32_PRACC_PARAM_IN h)))
         else if in_arena address (MIPS32_PRACC_PARAM_OUT h) (num_oparam ctx) then
           map_sum id (\<lambda>d. Some (d, ctx))
             (fetch Bad_oparam_index (local_oparam ctx)
                (arena_offset address (MIPS32_PRACC_PARAM_OUT h)))
         else if in_arena address (MIPS32_PRACC_TEXT h) (code_len ctx) then
           map_sum id (\<lambda>d. Some (d, ctx))
             (fetch Bad_code_index (code ctx) (arena_offset address (MIPS32_PRACC_TEXT h)))
         else if address = MIPS32_PRACC_STACK h then
           (let off = stack_offset ctx - 1
            in map_sum id (\<lambda>d. Some (d, ctx\<lparr>stack_offset := off\<rparr>))
                 (fetch Bad_stack_index (stack ctx) off))
         else Inr None)
      in case looked of
           Inl f \<Rightarrow> Inl f
         | Inr None \<Rightarrow> Inr (ERROR_JTAG_DEVICE_ERROR, ctx, l)
         | Inr (Some (data, ctx')) \<Rightarrow>
             (let l1 = mips_ejtag_set_instr EJTAG_INST_DATA l;
                  l2 = mips_ejtag_drscan_32_out data l1;
                  ctrl = ejtag_ctrl l2 AND NOT (EJTAG_CTRL_PRACC h);
                  l3 = mips_ejtag_set_instr EJTAG_INST_CONTROL l2;
                  l4 = mips_ejtag_drscan_32_out ctrl l3
              in case jtag_execute_queue l4 of (r, l5) \<Rightarrow> Inr (r, ctx', l5)))"

text \<open>
  \<^verbatim>\<open>mips32_pracc_exec_write\<close>. The local \<^verbatim>\<open>data\<close> is shifted out uninitialised; the model
  shifts out zero.
\<close>

definition mips32_pracc_exec_write ::
  "pracc_h \<Rightarrow> mips32_pracc_context \<Rightarrow> u32 \<Rightarrow> mips_ejtag
   \<Rightarrow> fault + (retval \<times> mips32_pracc_context \<times> mips_ejtag)" where
  "mips32_pracc_exec_write h ctx address l =
     (case mips_ejtag_drscan_32 0 (mips_ejtag_set_instr EJTAG_INST_DATA l) of
        (retval, data, l2) \<Rightarrow>
          if retval \<noteq> ERROR_OK then Inr (retval, ctx, l2)
          else
            let ctrl = ejtag_ctrl l2 AND NOT (EJTAG_CTRL_PRACC h);
                l3 = mips_ejtag_set_instr EJTAG_INST_CONTROL l2;
                l4 = mips_ejtag_drscan_32_out ctrl l3
            in case jtag_execute_queue l4 of
                 (retval2, l5) \<Rightarrow>
                   if retval2 \<noteq> ERROR_OK then Inr (retval2, ctx, l5)
                   else if in_arena address (MIPS32_PRACC_PARAM_IN h) (num_iparam ctx) then
                     map_sum id (\<lambda>xs. (ERROR_OK, ctx\<lparr>local_iparam := xs\<rparr>, l5))
                       (store Bad_iparam_index (local_iparam ctx)
                          (arena_offset address (MIPS32_PRACC_PARAM_IN h)) data)
                   else if in_arena address (MIPS32_PRACC_PARAM_OUT h) (num_oparam ctx) then
                     map_sum id (\<lambda>xs. (ERROR_OK, ctx\<lparr>local_oparam := xs\<rparr>, l5))
                       (store Bad_oparam_index (local_oparam ctx)
                          (arena_offset address (MIPS32_PRACC_PARAM_OUT h)) data)
                   else if address = MIPS32_PRACC_STACK h then
                     map_sum id
                       (\<lambda>xs. (ERROR_OK, ctx\<lparr>stack := xs, stack_offset := stack_offset ctx + 1\<rparr>, l5))
                       (store Bad_stack_index (stack ctx) (stack_offset ctx) data)
                   else Inr (ERROR_JTAG_DEVICE_ERROR, ctx, l5))"

text \<open>
  One round of the \<^verbatim>\<open>while (1)\<close> of \<^verbatim>\<open>mips32_pracc_exec\<close>, up to the test of \<^verbatim>\<open>cycle\<close>. It
  ends in a fault, in a \<^verbatim>\<open>return retval\<close>, in the \<^verbatim>\<open>break\<close> at the second read of the start
  of the text, or with the access served; the last two carry the value of \<^verbatim>\<open>pass\<close>.
\<close>

datatype pracc_step =
    Faulted fault
  | Returned retval mips32_pracc_context mips_ejtag
  | Broke mips32_pracc_context int mips_ejtag
  | Served mips32_pracc_context int mips_ejtag

definition pracc_cycle ::
  "pracc_h \<Rightarrow> mips32_pracc_context \<Rightarrow> int \<Rightarrow> mips_ejtag \<Rightarrow> pracc_step" where
  "pracc_cycle h ctx pass l =
     (case wait_for_pracc_rw h l of
        (retval, ctrl, l1) \<Rightarrow>
          if retval \<noteq> ERROR_OK then Returned retval ctx l1
          else
            (case mips_ejtag_drscan_32 0 (mips_ejtag_set_instr EJTAG_INST_ADDRESS l1) of
               (retval2, address, l2) \<Rightarrow>
                 if retval2 \<noteq> ERROR_OK then Returned retval2 ctx l2
                 else if ctrl AND EJTAG_CTRL_PRNW h \<noteq> 0 then
                   (case mips32_pracc_exec_write h ctx address l2 of
                      Inl f \<Rightarrow> Faulted f
                    | Inr (r, ctx', l3) \<Rightarrow>
                        if r \<noteq> ERROR_OK then Returned r ctx' l3 else Served ctx' pass l3)
                 else if address = MIPS32_PRACC_TEXT h \<and> pass \<noteq> 0 then
                   Broke ctx (pass + 1) l2
                 else
                   let pass' = (if address = MIPS32_PRACC_TEXT h then pass + 1 else pass)
                   in (case mips32_pracc_exec_read h ctx address l2 of
                         Inl f \<Rightarrow> Faulted f
                       | Inr (r, ctx', l3) \<Rightarrow>
                           if r \<noteq> ERROR_OK then Returned r ctx' l3
                           else Served ctx' pass' l3)))"

lemma drscan_32_answers:
  "mips_ejtag_drscan_32 d l = (r, v, l') \<Longrightarrow>
   length (scan_answers l') \<le> length (scan_answers l)
   \<and> (r = ERROR_OK \<longrightarrow> length (scan_answers l') < length (scan_answers l))"
  by (auto simp: mips_ejtag_drscan_32_def split: list.splits prod.splits)

lemma link_ops_answers [simp]:
  "scan_answers (mips_ejtag_set_instr i l) = scan_answers l"
  "scan_answers (mips_ejtag_drscan_32_out d l) = scan_answers l"
  "scan_answers (snd (jtag_execute_queue l)) = scan_answers l"
  "scan_answers (snd (timeval_ms l)) = scan_answers l"
  by (simp_all add: mips_ejtag_set_instr_def mips_ejtag_drscan_32_out_def jtag_execute_queue_def
      timeval_ms_def split: list.splits)

lemma wait_loop_answers:
  "wait_loop h t c l = (r, c', l') \<Longrightarrow>
   length (scan_answers l') \<le> length (scan_answers l)
   \<and> (r = ERROR_OK \<longrightarrow> length (scan_answers l') < length (scan_answers l))"
proof (induction h t c l rule: wait_loop.induct)
  case (1 h then_ms ctrl l)
  obtain r1 c1 l1 where d: "mips_ejtag_drscan_32 ctrl l = (r1, c1, l1)"
    by (cases "mips_ejtag_drscan_32 ctrl l") auto
  note da = drscan_32_answers [OF d]
  obtain t l2 where tm: "timeval_ms l1 = (t, l2)" by (cases "timeval_ms l1") auto
  have l2: "scan_answers l2 = scan_answers l1"
    using link_ops_answers(4) [of l1] tm by simp
  show ?case
  proof (cases "r1 = ERROR_OK \<and> c1 AND EJTAG_CTRL_PRACC h = 0
                \<and> \<not> sint (word_of_int (t - then_ms) :: 32 word) > 1000")
    case True
    with "1.prems" d tm have "wait_loop h then_ms c1 l2 = (r, c', l')"
      by (subst (asm) wait_loop.simps) simp
    from "1.IH" [OF d [symmetric] refl _ _ tm [symmetric] _ this] True
    have "length (scan_answers l') \<le> length (scan_answers l2)
      \<and> (r = ERROR_OK \<longrightarrow> length (scan_answers l') < length (scan_answers l2))"
      by simp
    with True da l2 show ?thesis by auto
  next
    case False
    with "1.prems" d tm da l2 show ?thesis
      by (subst (asm) wait_loop.simps) (auto split: if_splits)
  qed
qed

lemma wait_for_pracc_rw_answers:
  assumes "wait_for_pracc_rw h l = (r, c, l')"
  shows "length (scan_answers l') \<le> length (scan_answers l)
   \<and> (r = ERROR_OK \<longrightarrow> length (scan_answers l') < length (scan_answers l))"
proof -
  obtain t l0 where tm: "timeval_ms l = (t, l0)" by (cases "timeval_ms l") auto
  let ?l1 = "mips_ejtag_set_instr EJTAG_INST_CONTROL l0"
  obtain r2 l2 where q: "jtag_execute_queue ?l1 = (r2, l2)"
    by (cases "jtag_execute_queue ?l1") auto
  have e: "scan_answers l2 = scan_answers l"
    using link_ops_answers(3) [of ?l1] link_ops_answers(4) [of l] tm q by simp
  show ?thesis
  proof (cases "r2 = ERROR_OK")
    case True
    with assms tm q have "wait_loop h t (ejtag_ctrl ?l1) l2 = (r, c, l')"
      by (simp add: wait_for_pracc_rw_def Let_def)
    from wait_loop_answers [OF this] e show ?thesis by simp
  next
    case False
    with assms tm q e show ?thesis
      by (auto simp: wait_for_pracc_rw_def Let_def)
  qed
qed

lemma execute_queue_answers:
  "jtag_execute_queue l = (r, l') \<Longrightarrow> scan_answers l' = scan_answers l"
  using link_ops_answers(3) [of l] by simp

lemma map_sum_id_Inr: "(map_sum id f x = Inr y) = (\<exists>v. x = Inr v \<and> y = f v)"
  by (cases x) auto

lemma map_sum_id_Inl: "(map_sum id f x = Inl e) = (x = Inl e)"
  by (cases x) auto

lemma exec_read_answers:
  "mips32_pracc_exec_read h ctx a l = Inr (r, ctx', l') \<Longrightarrow> scan_answers l' = scan_answers l"
  by (auto simp: mips32_pracc_exec_read_def Let_def dest!: execute_queue_answers
      split: sum.splits option.splits prod.splits if_splits)

lemma exec_write_answers:
  assumes "mips32_pracc_exec_write h ctx a l = Inr (r, ctx', l')"
  shows "length (scan_answers l') \<le> length (scan_answers l)"
proof -
  obtain r1 d l2 where
    sc: "mips_ejtag_drscan_32 0 (mips_ejtag_set_instr EJTAG_INST_DATA l) = (r1, d, l2)"
    by (cases "mips_ejtag_drscan_32 0 (mips_ejtag_set_instr EJTAG_INST_DATA l)") auto
  from drscan_32_answers [OF sc] have le: "length (scan_answers l2) \<le> length (scan_answers l)"
    by simp
  from assms sc have "l' = l2 \<or> scan_answers l' = scan_answers l2"
    by (auto simp: mips32_pracc_exec_write_def Let_def map_sum_id_Inr
        dest!: execute_queue_answers split: prod.splits if_splits)
  with le show ?thesis by auto
qed

lemma pracc_cycle_answers:
  assumes "pracc_cycle h ctx pass l = Served ctx' pass' l'"
  shows "length (scan_answers l') < length (scan_answers l)"
proof -
  obtain r c l1 where w: "wait_for_pracc_rw h l = (r, c, l1)"
    by (cases "wait_for_pracc_rw h l") auto
  obtain r2 ad l2 where
    sc: "mips_ejtag_drscan_32 0 (mips_ejtag_set_instr EJTAG_INST_ADDRESS l1) = (r2, ad, l2)"
    by (cases "mips_ejtag_drscan_32 0 (mips_ejtag_set_instr EJTAG_INST_ADDRESS l1)") auto
  from assms w have ok: "r = ERROR_OK"
    by (auto simp: pracc_cycle_def split: if_splits)
  with wait_for_pracc_rw_answers [OF w]
  have lt: "length (scan_answers l1) < length (scan_answers l)" by simp
  from drscan_32_answers [OF sc] have le: "length (scan_answers l2) \<le> length (scan_answers l1)"
    by simp
  from assms w sc ok have "(\<exists>r3 c3. mips32_pracc_exec_write h ctx ad l2 = Inr (r3, c3, l'))
      \<or> (\<exists>r3 c3. mips32_pracc_exec_read h ctx ad l2 = Inr (r3, c3, l'))"
    by (auto simp: pracc_cycle_def Let_def split: if_splits sum.splits prod.splits)
  with exec_write_answers exec_read_answers
  have "length (scan_answers l') \<le> length (scan_answers l2)" by fastforce
  with lt le show ?thesis by simp
qed


text \<open>
  The loop of \<^verbatim>\<open>mips32_pracc_exec\<close>: rounds until one ends the run, or, with \<^verbatim>\<open>cycle == 0\<close>,
  a single round.
\<close>

function pracc_loop ::
  "pracc_h \<Rightarrow> int \<Rightarrow> mips32_pracc_context \<Rightarrow> int \<Rightarrow> mips_ejtag
   \<Rightarrow> fault + (retval \<times> mips32_pracc_context \<times> mips_ejtag)" where
  "pracc_loop h cycle ctx pass l =
     (case pracc_cycle h ctx pass l of
        Faulted f \<Rightarrow> Inl f
      | Returned r c l' \<Rightarrow> Inr (r, c, l')
      | Broke c p l' \<Rightarrow> Inr (ERROR_OK, c, l')
      | Served c p l' \<Rightarrow>
          if cycle = 0 then Inr (ERROR_OK, c, l') else pracc_loop h cycle c p l')"
  by pat_completeness auto
termination
  by (relation "measure (\<lambda>(h, cycle, ctx, pass, l). length (scan_answers l))")
     (auto dest: pracc_cycle_answers)

declare pracc_loop.simps [simp del]
declare wait_loop.simps [simp del]

text \<open>
  \<^verbatim>\<open>mips32_pracc_exec\<close>: the context is set up with an empty stack (its 32 words are
  indeterminate in C, zero in the model), the loop runs, and a stack offset other than zero
  is only logged. \<open>pracc_run\<close> keeps the context; \<open>mips32_pracc_exec\<close> is the C function,
  whose effects on the caller are the return code, the two parameter arrays and the link.
\<close>

definition pracc_run ::
  "pracc_h \<Rightarrow> int \<Rightarrow> u32 list \<Rightarrow> int \<Rightarrow> u32 list \<Rightarrow> int \<Rightarrow> u32 list \<Rightarrow> int \<Rightarrow> mips_ejtag
   \<Rightarrow> fault + (retval \<times> mips32_pracc_context \<times> mips_ejtag)" where
  "pracc_run h code_len' code' num_param_in param_in num_param_out param_out cycle l =
     pracc_loop h cycle
       \<lparr>local_iparam = param_in, num_iparam = num_param_in,
        local_oparam = param_out, num_oparam = num_param_out,
        code = code', code_len = code_len',
        stack = replicate 32 0, stack_offset = 0\<rparr> 0 l"

definition mips32_pracc_exec ::
  "pracc_h \<Rightarrow> int \<Rightarrow> u32 list \<Rightarrow> int \<Rightarrow> u32 list \<Rightarrow> int \<Rightarrow> u32 list \<Rightarrow> int \<Rightarrow> mips_ejtag
   \<Rightarrow> fault + (retval \<times> u32 list \<times> u32 list \<times> mips_ejtag)" where
  "mips32_pracc_exec h code_len' code' num_param_in param_in num_param_out param_out cycle l =
     (case pracc_run h code_len' code' num_param_in param_in num_param_out param_out cycle l of
        Inl f \<Rightarrow> Inl f
      | Inr (r, ctx, l') \<Rightarrow> Inr (r, local_iparam ctx, local_oparam ctx, l'))"

subsection \<open>The instruction stubs\<close>

text \<open>
  The constant arrays \<^verbatim>\<open>code[]\<close> of the memory and register primitives, word for word.
\<close>

definition read_mem32_code :: "pracc_h \<Rightarrow> u32 list" where
  "read_mem32_code h =
    [MIPS32_MTC0 15 31 0,
     MIPS32_LUI 15 (UPPER16 h (MIPS32_PRACC_STACK h)),
     MIPS32_ORI 15 15 (LOWER16 h (MIPS32_PRACC_STACK h)),
     MIPS32_SW 8 0 15, MIPS32_SW 9 0 15, MIPS32_SW 10 0 15, MIPS32_SW 11 0 15,
     MIPS32_LUI 8 (UPPER16 h (MIPS32_PRACC_PARAM_IN h)),
     MIPS32_ORI 8 8 (LOWER16 h (MIPS32_PRACC_PARAM_IN h)),
     MIPS32_LW 9 0 8, MIPS32_LW 10 4 8,
     MIPS32_LUI 11 (UPPER16 h (MIPS32_PRACC_PARAM_OUT h)),
     MIPS32_ORI 11 11 (LOWER16 h (MIPS32_PRACC_PARAM_OUT h)),
     MIPS32_BEQ 0 10 8, MIPS32_NOP,
     MIPS32_LW 8 0 9, MIPS32_SW 8 0 11,
     MIPS32_ADDI 10 10 (NEG16 h 1), MIPS32_ADDI 9 9 4, MIPS32_ADDI 11 11 4,
     MIPS32_B (NEG16 h 8), MIPS32_NOP,
     MIPS32_LW 11 0 15, MIPS32_LW 10 0 15, MIPS32_LW 9 0 15, MIPS32_LW 8 0 15,
     MIPS32_B (NEG16 h 27),
     MIPS32_MFC0 15 31 0]"

definition read_u32_code :: "pracc_h \<Rightarrow> u32 list" where
  "read_u32_code h =
    [MIPS32_MTC0 15 31 0,
     MIPS32_LUI 15 (UPPER16 h (MIPS32_PRACC_STACK h)),
     MIPS32_ORI 15 15 (LOWER16 h (MIPS32_PRACC_STACK h)),
     MIPS32_SW 8 0 15,
     MIPS32_LW 8 (NEG16 h (MIPS32_PRACC_STACK h - MIPS32_PRACC_PARAM_IN h)) 15,
     MIPS32_LW 8 0 8,
     MIPS32_SW 8 (NEG16 h (MIPS32_PRACC_STACK h - MIPS32_PRACC_PARAM_OUT h)) 15,
     MIPS32_LW 8 0 15,
     MIPS32_B (NEG16 h 9),
     MIPS32_MFC0 15 31 0]"

definition read_mem16_code :: "pracc_h \<Rightarrow> u32 list" where
  "read_mem16_code h =
    [MIPS32_MTC0 15 31 0,
     MIPS32_LUI 15 (UPPER16 h (MIPS32_PRACC_STACK h)),
     MIPS32_ORI 15 15 (LOWER16 h (MIPS32_PRACC_STACK h)),
     MIPS32_SW 8 0 15, MIPS32_SW 9 0 15, MIPS32_SW 10 0 15, MIPS32_SW 11 0 15,
     MIPS32_LUI 8 (UPPER16 h (MIPS32_PRACC_PARAM_IN h)),
     MIPS32_ORI 8 8 (LOWER16 h (MIPS32_PRACC_PARAM_IN h)),
     MIPS32_LW 9 0 8, MIPS32_LW 10 4 8,
     MIPS32_LUI 11 (UPPER16 h (MIPS32_PRACC_PARAM_OUT h)),
     MIPS32_ORI 11 11 (LOWER16 h (MIPS32_PRACC_PARAM_OUT h)),
     MIPS32_BEQ 0 10 8, MIPS32_NOP,
     MIPS32_LHU 8 0 9, MIPS32_SW 8 0 11,
     MIPS32_ADDI 10 10 (NEG16 h 1), MIPS32_ADDI 9 9 2, MIPS32_ADDI 11 11 4,
     MIPS32_B (NEG16 h 8), MIPS32_NOP,
     MIPS32_LW 11 0 15, MIPS32_LW 10 0 15, MIPS32_LW 9 0 15, MIPS32_LW 8 0 15,
     MIPS32_B (NEG16 h 27),
     MIPS32_MFC0 15 30 0]"

definition read_mem8_code :: "pracc_h \<Rightarrow> u32 list" where
  "read_mem8_code h =
    [MIPS32_MTC0 15 31 0,
     MIPS32_LUI 15 (UPPER16 h (MIPS32_PRACC_STACK h)),
     MIPS32_ORI 15 15 (LOWER16 h (MIPS32_PRACC_STACK h)),
     MIPS32_SW 8 0 15, MIPS32_SW 9 0 15, MIPS32_SW 10 0 15, MIPS32_SW 11 0 15,
     MIPS32_LUI 8 (UPPER16 h (MIPS32_PRACC_PARAM_IN h)),
     MIPS32_ORI 8 8 (LOWER16 h (MIPS32_PRACC_PARAM_IN h)),
     MIPS32_LW 9 0 8, MIPS32_LW 10 4 8,
     MIPS32_LUI 11 (UPPER16 h (MIPS32_PRACC_PARAM_OUT h)),
     MIPS32_ORI 11 11 (LOWER16 h (MIPS32_PRACC_PARAM_OUT h)),
     MIPS32_BEQ 0 10 8, MIPS32_NOP,
     MIPS32_LBU 8 0 9, MIPS32_SW 8 0 11,
     MIPS32_ADDI 10 10 (NEG16 h 1), MIPS32_ADDI 9 9 1, MIPS32_ADDI 11 11 4,
     MIPS32_B (NEG16 h 8), MIPS32_NOP,
     MIPS32_LW 11 0 15, MIPS32_LW 10 0 15, MIPS32_LW 9 0 15, MIPS32_LW 8 0 15,
     MIPS32_B (NEG16 h 27),
     MIPS32_MFC0 15 31 0]"

definition write_mem32_code :: "pracc_h \<Rightarrow> u32 list" where
  "write_mem32_code h =
    [MIPS32_MTC0 15 31 0,
     MIPS32_LUI 15 (UPPER16 h (MIPS32_PRACC_STACK h)),
     MIPS32_ORI 15 15 (LOWER16 h (MIPS32_PRACC_STACK h)),
     MIPS32_SW 8 0 15, MIPS32_SW 9 0 15, MIPS32_SW 10 0 15, MIPS32_SW 11 0 15,
     MIPS32_ADDI 8 15 (NEG16 h (MIPS32_PRACC_STACK h - MIPS32_PRACC_PARAM_IN h)),
     MIPS32_LW 9 0 8, MIPS32_LW 10 4 8,
     MIPS32_ADDI 8 8 8,
     MIPS32_LW 11 0 8, MIPS32_SW 11 0 9,
     MIPS32_ADDI 9 9 4,
     MIPS32_BNE 10 9 (NEG16 h 4),
     MIPS32_ADDI 8 8 4,
     MIPS32_LW 11 0 15, MIPS32_LW 10 0 15, MIPS32_LW 9 0 15, MIPS32_LW 8 0 15,
     MIPS32_B (NEG16 h 21),
     MIPS32_MFC0 15 31 0]"

definition write_u32_code :: "pracc_h \<Rightarrow> u32 list" where
  "write_u32_code h =
    [MIPS32_MTC0 15 31 0,
     MIPS32_LUI 15 (UPPER16 h (MIPS32_PRACC_STACK h)),
     MIPS32_ORI 15 15 (LOWER16 h (MIPS32_PRACC_STACK h)),
     MIPS32_SW 8 0 15, MIPS32_SW 9 0 15,
     MIPS32_LW 8 (NEG16 h ((MIPS32_PRACC_STACK h - MIPS32_PRACC_PARAM_IN h) - 4)) 15,
     MIPS32_LW 9 (NEG16 h (MIPS32_PRACC_STACK h - MIPS32_PRACC_PARAM_IN h)) 15,
     MIPS32_SW 8 0 9,
     MIPS32_LW 9 0 15, MIPS32_LW 8 0 15,
     MIPS32_B (NEG16 h 11),
     MIPS32_MFC0 15 31 0]"

definition write_mem16_code :: "pracc_h \<Rightarrow> u32 list" where
  "write_mem16_code h =
    [MIPS32_MTC0 15 31 0,
     MIPS32_LUI 15 (UPPER16 h (MIPS32_PRACC_STACK h)),
     MIPS32_ORI 15 15 (LOWER16 h (MIPS32_PRACC_STACK h)),
     MIPS32_SW 8 0 15, MIPS32_SW 9 0 15, MIPS32_SW 10 0 15, MIPS32_SW 11 0 15,
     MIPS32_LUI 8 (UPPER16 h (MIPS32_PRACC_PARAM_IN h)),
     MIPS32_ORI 8 8 (LOWER16 h (MIPS32_PRACC_PARAM_IN h)),
     MIPS32_LW 9 0 8, MIPS32_LW 10 4 8,
     MIPS32_ADDI 8 8 8,
     MIPS32_BEQ 0 10 8, MIPS32_NOP,
     MIPS32_LW 11 0 8, MIPS32_SH 11 0 9,
     MIPS32_ADDI 10 10 (NEG16 h 1), MIPS32_ADDI 9 9 2, MIPS32_ADDI 8 8 4,
     MIPS32_B (NEG16 h 8), MIPS32_NOP,
     MIPS32_LW 11 0 15, MIPS32_LW 10 0 15, MIPS32_LW 9 0 15, MIPS32_LW 8 0 15,
     MIPS32_B (NEG16 h 26),
     MIPS32_MFC0 15 31 0]"

definition write_mem8_code :: "pracc_h \<Rightarrow> u32 list" where
  "write_mem8_code h =
    [MIPS32_MTC0 15 31 0,
     MIPS32_LUI 15 (UPPER16 h (MIPS32_PRACC_STACK h)),
     MIPS32_ORI 15 15 (LOWER16 h (MIPS32_PRACC_STACK h)),
     MIPS32_SW 8 0 15, MIPS32_SW 9 0 15, MIPS32_SW 10 0 15, MIPS32_SW 11 0 15,
     MIPS32_LUI 8 (UPPER16 h (MIPS32_PRACC_PARAM_IN h)),
     MIPS32_ORI 8 8 (LOWER16 h (MIPS32_PRACC_PARAM_IN h)),
     MIPS32_LW 9 0 8, MIPS32_LW 10 4 8,
     MIPS32_ADDI 8 8 8,
     MIPS32_BEQ 0 10 8, MIPS32_NOP,
     MIPS32_LW 11 0 8, MIPS32_SB 11 0 9,
     MIPS32_ADDI 10 10 (NEG16 h 1), MIPS32_ADDI 9 9 1, MIPS32_ADDI 8 8 4,
     MIPS32_B (NEG16 h 8), MIPS32_NOP,
     MIPS32_LW 11 0 15, MIPS32_LW 10 0 15, MIPS32_LW 9 0 15, MIPS32_LW 8 0 15,
     MIPS32_B (NEG16 h 26),
     MIPS32_MFC0 15 31 0]"

text \<open>
  In the two register stubs the runs of loads and stores over the registers 3 to 14 and
  16 to 31 (\<^verbatim>\<open>MIPS32_LW(r, r*4, 1)\<close>, \<^verbatim>\<open>MIPS32_SW(r, r*4, 1)\<close>) are written with \<open>map\<close>.
\<close>

definition write_regs_code :: "pracc_h \<Rightarrow> u32 list" where
  "write_regs_code h =
    [MIPS32_LUI 2 (UPPER16 h (MIPS32_PRACC_PARAM_IN h)),
     MIPS32_ORI 2 2 (LOWER16 h (MIPS32_PRACC_PARAM_IN h)),
     MIPS32_LW 1 (1 * 4) 2,
     MIPS32_LW 15 (15 * 4) 2,
     MIPS32_MTC0 15 31 0,
     MIPS32_LUI 15 (UPPER16 h (MIPS32_PRACC_STACK h)),
     MIPS32_ORI 15 15 (LOWER16 h (MIPS32_PRACC_STACK h)),
     MIPS32_SW 1 0 15,
     MIPS32_LUI 1 (UPPER16 h (MIPS32_PRACC_PARAM_IN h)),
     MIPS32_ORI 1 1 (LOWER16 h (MIPS32_PRACC_PARAM_IN h))]
    @ map (\<lambda>r. MIPS32_LW r (r * 4) 1)
        [3, 4, 5, 6, 7, 8, 9, 10, 11, 12, 13, 14,
         16, 17, 18, 19, 20, 21, 22, 23, 24, 25, 26, 27, 28, 29, 30, 31]
    @ [MIPS32_LW 2 (32 * 4) 1, MIPS32_MTC0 2 12 0,
       MIPS32_LW 2 (33 * 4) 1, MIPS32_MTLO 2,
       MIPS32_LW 2 (34 * 4) 1, MIPS32_MTHI 2,
       MIPS32_LW 2 (35 * 4) 1, MIPS32_MTC0 2 8 0,
       MIPS32_LW 2 (36 * 4) 1, MIPS32_MTC0 2 13 0,
       MIPS32_LW 2 (37 * 4) 1, MIPS32_MTC0 2 24 0,
       MIPS32_LW 2 (2 * 4) 1,
       MIPS32_LW 1 0 15,
       MIPS32_B (NEG16 h 53),
       MIPS32_MFC0 15 31 0]"

definition read_regs_code :: "pracc_h \<Rightarrow> u32 list" where
  "read_regs_code h =
    [MIPS32_MTC0 2 31 0,
     MIPS32_LUI 2 (UPPER16 h (MIPS32_PRACC_PARAM_OUT h)),
     MIPS32_ORI 2 2 (LOWER16 h (MIPS32_PRACC_PARAM_OUT h)),
     MIPS32_SW 0 (0 * 4) 2,
     MIPS32_SW 1 (1 * 4) 2,
     MIPS32_SW 15 (15 * 4) 2,
     MIPS32_MFC0 2 31 0,
     MIPS32_MTC0 15 31 0,
     MIPS32_LUI 15 (UPPER16 h (MIPS32_PRACC_STACK h)),
     MIPS32_ORI 15 15 (LOWER16 h (MIPS32_PRACC_STACK h)),
     MIPS32_SW 1 0 15,
     MIPS32_SW 2 0 15,
     MIPS32_LUI 1 (UPPER16 h (MIPS32_PRACC_PARAM_OUT h)),
     MIPS32_ORI 1 1 (LOWER16 h (MIPS32_PRACC_PARAM_OUT h)),
     MIPS32_SW 2 (2 * 4) 1]
    @ map (\<lambda>r. MIPS32_SW r (r * 4) 1)
        [3, 4, 5, 6, 7, 8, 9, 10, 11, 12, 13, 14,
         16, 17, 18, 19, 20, 21, 22, 23, 24, 25, 26, 27, 28, 29, 30, 31]
    @ [MIPS32_MFC0 2 12 0, MIPS32_SW 2 (32 * 4) 1,
       MIPS32_MFLO 2, MIPS32_SW 2 (33 * 4) 1,
       MIPS32_MFHI 2, MIPS32_SW 2 (34 * 4) 1,
       MIPS32_MFC0 2 8 0, MIPS32_SW 2 (35 * 4) 1,
       MIPS32_MFC0 2 13 0, MIPS32_SW 2 (36 * 4) 1,
       MIPS32_MFC0 2 24 0, MIPS32_SW 2 (37 * 4) 1,
       MIPS32_LW 2 0 15,
       MIPS32_LW 1 0 15,
       MIPS32_B (NEG16 h 58),
       MIPS32_MFC0 15 31 0]"

subsection \<open>Memory and register primitives\<close>

text \<open>
  The primitives call \<^verbatim>\<open>mips32_pracc_exec\<close>. In the model the executor is their first
  argument, of the type of \<open>mips32_pracc_exec h\<close>, so that what they ask of it can be stated
  for any behaviour of the target; \<^verbatim>\<open>ARRAY_SIZE(code)\<close> is the length of the stub.
\<close>

type_synonym 's executor =
  "int \<Rightarrow> u32 list \<Rightarrow> int \<Rightarrow> u32 list \<Rightarrow> int \<Rightarrow> u32 list \<Rightarrow> int \<Rightarrow> 's
   \<Rightarrow> fault + (retval \<times> u32 list \<times> u32 list \<times> 's)"



definition mips32_pracc_read_u32 ::
  "'s executor \<Rightarrow> pracc_h \<Rightarrow> u32 \<Rightarrow> u32 list \<Rightarrow> 's \<Rightarrow> fault + (retval \<times> u32 list \<times> 's)" where
  "mips32_pracc_read_u32 exec h addr buffer s =
     (case exec (int (length (read_u32_code h))) (read_u32_code h) 1 [addr] 1 buffer 1 s of
        Inl f \<Rightarrow> Inl f
      | Inr (retval, param_in', param_out', s') \<Rightarrow> Inr (retval, param_out', s'))"



text \<open>
  \<^verbatim>\<open>mips32_pracc_write_mem32\<close>: one execution over \<open>count + 2\<close> input words. A negative
  \<open>count\<close>, or one beyond the caller's buffer, makes the \<^verbatim>\<open>memcpy\<close> run off an array.
\<close>

definition mips32_pracc_write_mem32 ::
  "'s executor \<Rightarrow> pracc_h \<Rightarrow> u32 \<Rightarrow> int \<Rightarrow> u32 list \<Rightarrow> 's \<Rightarrow> fault + (retval \<times> 's)" where
  "mips32_pracc_write_mem32 exec h addr count buffer s =
     (if count < 0 \<or> nat count > length buffer then Inl (Bad_buffer_index count)
      else
        let param_in = addr # (addr + word_of_int (count * 4)) # take (nat count) buffer
        in case exec (int (length (write_mem32_code h))) (write_mem32_code h)
                  (count + 2) param_in 0 [] 1 s of
             Inl f \<Rightarrow> Inl f
           | Inr (retval, param_in', param_out', s') \<Rightarrow> Inr (retval, s'))"

definition mips32_pracc_write_u32 ::
  "'s executor \<Rightarrow> pracc_h \<Rightarrow> u32 \<Rightarrow> u32 \<Rightarrow> 's \<Rightarrow> fault + (retval \<times> 's)" where
  "mips32_pracc_write_u32 exec h addr v s =
     (case exec (int (length (write_u32_code h))) (write_u32_code h) 2 [addr, v] 0 [] 1 s of
        Inl f \<Rightarrow> Inl f
      | Inr (retval, param_in', param_out', s') \<Rightarrow> Inr (retval, s'))"

definition mips32_pracc_write_mem16 ::
  "'s executor \<Rightarrow> pracc_h \<Rightarrow> u32 \<Rightarrow> int \<Rightarrow> 16 word list \<Rightarrow> 's \<Rightarrow> fault + (retval \<times> 's)" where
  "mips32_pracc_write_mem16 exec h addr count buffer s =
     (if count < 0 \<or> nat count > length buffer then Inl (Bad_buffer_index count)
      else
        let param_in = addr # word_of_int count # map ucast (take (nat count) buffer)
        in case exec (int (length (write_mem16_code h))) (write_mem16_code h)
                  (count + 2) param_in 0 [] 1 s of
             Inl f \<Rightarrow> Inl f
           | Inr (retval, param_in', param_out', s') \<Rightarrow> Inr (retval, s'))"

definition mips32_pracc_write_mem8 ::
  "'s executor \<Rightarrow> pracc_h \<Rightarrow> u32 \<Rightarrow> int \<Rightarrow> u8 list \<Rightarrow> 's \<Rightarrow> fault + (retval \<times> 's)" where
  "mips32_pracc_write_mem8 exec h addr count buffer s =
     (if count < 0 \<or> nat count > length buffer then Inl (Bad_buffer_index count)
      else
        let param_in = addr # word_of_int count # map ucast (take (nat count) buffer)
        in case exec (int (length (write_mem8_code h))) (write_mem8_code h)
                  (count + 2) param_in 0 [] 1 s of
             Inl f \<Rightarrow> Inl f
           | Inr (retval, param_in', param_out', s') \<Rightarrow> Inr (retval, s'))"

definition mips32_pracc_write_regs ::
  "'s executor \<Rightarrow> pracc_h \<Rightarrow> u32 list \<Rightarrow> 's \<Rightarrow> fault + (retval \<times> u32 list \<times> 's)" where
  "mips32_pracc_write_regs exec h regs s =
     (case exec (int (length (write_regs_code h))) (write_regs_code h)
             MIPS32NUMCOREREGS regs 0 [] 1 s of
        Inl f \<Rightarrow> Inl f
      | Inr (retval, param_in', param_out', s') \<Rightarrow> Inr (retval, param_in', s'))"

definition mips32_pracc_read_regs ::
  "'s executor \<Rightarrow> pracc_h \<Rightarrow> u32 list \<Rightarrow> 's \<Rightarrow> fault + (retval \<times> u32 list \<times> 's)" where
  "mips32_pracc_read_regs exec h regs s =
     (case exec (int (length (read_regs_code h))) (read_regs_code h)
             0 [] MIPS32NUMCOREREGS regs 1 s of
        Inl f \<Rightarrow> Inl f
      | Inr (retval, param_in', param_out', s') \<Rightarrow> Inr (retval, param_out', s'))"

subsection \<open>The FASTDATA engine\<close>

text \<open>
  \<^verbatim>\<open>struct working_area\<close>, of which the transfer reads the address and the size (the fields
  are suffixed, \<open>size\<close> being a constant of HOL).
\<close>

record working_area =
  wa_address :: u32
  wa_size :: u32

text \<open>\<^verbatim>\<open>handler_code[]\<close> after the patch of its words 8 and 9 for the direction.\<close>

definition handler_code :: "pracc_h \<Rightarrow> int \<Rightarrow> u32 list" where
  "handler_code h write_t =
    [MIPS32_SW 8 (MIPS32_FASTDATA_HANDLER_SIZE h - 4) 15,
     MIPS32_SW 9 (MIPS32_FASTDATA_HANDLER_SIZE h - 8) 15,
     MIPS32_SW 10 (MIPS32_FASTDATA_HANDLER_SIZE h - 12) 15,
     MIPS32_SW 11 (MIPS32_FASTDATA_HANDLER_SIZE h - 16) 15,
     MIPS32_LUI 8 (UPPER16 h (MIPS32_PRACC_FASTDATA_AREA h)),
     MIPS32_ORI 8 8 (LOWER16 h (MIPS32_PRACC_FASTDATA_AREA h)),
     MIPS32_LW 9 0 8,
     MIPS32_LW 10 0 8,
     MIPS32_LW 11 0 0,
     MIPS32_SW 11 0 0,
     MIPS32_BNE 10 9 (NEG16 h 3),
     MIPS32_ADDI 9 9 4,
     MIPS32_LW 8 (MIPS32_FASTDATA_HANDLER_SIZE h - 4) 15,
     MIPS32_LW 9 (MIPS32_FASTDATA_HANDLER_SIZE h - 8) 15,
     MIPS32_LW 10 (MIPS32_FASTDATA_HANDLER_SIZE h - 12) 15,
     MIPS32_LW 11 (MIPS32_FASTDATA_HANDLER_SIZE h - 16) 15,
     MIPS32_LUI 15 (UPPER16 h (MIPS32_PRACC_TEXT h)),
     MIPS32_ORI 15 15 (LOWER16 h (MIPS32_PRACC_TEXT h)),
     MIPS32_JR 15,
     MIPS32_MFC0 15 31 0]
    [8 := (if write_t \<noteq> 0 then MIPS32_LW 11 0 8 else MIPS32_LW 11 0 9),
     9 := (if write_t \<noteq> 0 then MIPS32_SW 11 0 9 else MIPS32_SW 11 0 8)]"

text \<open>\<^verbatim>\<open>jmp_code[]\<close> with the address of the working area or-ed into its words 1 and 2.\<close>

definition jmp_code :: "pracc_h \<Rightarrow> u32 \<Rightarrow> u32 list" where
  "jmp_code h area =
    [MIPS32_MTC0 15 31 0,
     MIPS32_LUI 15 0 OR UPPER16 h area,
     MIPS32_ORI 15 15 0 OR LOWER16 h area,
     MIPS32_JR 15,
     MIPS32_NOP]"

text \<open>The loop that feeds the words of \<^verbatim>\<open>jmp_code\<close> to the fetches of the target.\<close>

fun jmp_loop :: "pracc_h \<Rightarrow> u32 list \<Rightarrow> mips_ejtag \<Rightarrow> retval \<times> mips_ejtag" where
  "jmp_loop h [] l = (ERROR_OK, l)"
| "jmp_loop h (w # ws) l =
     (case wait_for_pracc_rw h l of
        (retval, ctrl, l1) \<Rightarrow>
          if retval \<noteq> ERROR_OK then (retval, l1)
          else
            let l2 = mips_ejtag_set_instr EJTAG_INST_DATA l1;
                l3 = mips_ejtag_drscan_32_out w l2;
                c = ejtag_ctrl l3 AND NOT (EJTAG_CTRL_PRACC h);
                l4 = mips_ejtag_set_instr EJTAG_INST_CONTROL l3;
                l5 = mips_ejtag_drscan_32_out c l4
            in jmp_loop h ws l5)"

text \<open>
  The loop \<^verbatim>\<open>for (i = 0; i < count; i++)\<close> over \<^verbatim>\<open>mips_ejtag_fastdata_scan(.., buf++)\<close>; the
  second argument counts the rounds left, the third is \<open>i\<close>.
\<close>

fun fastdata_loop ::
  "int \<Rightarrow> nat \<Rightarrow> nat \<Rightarrow> u32 list \<Rightarrow> mips_ejtag \<Rightarrow> fault + (retval \<times> u32 list \<times> mips_ejtag)" where
  "fastdata_loop write_t 0 i buffer l = Inr (ERROR_OK, buffer, l)"
| "fastdata_loop write_t (Suc k) i buffer l =
     (if length buffer \<le> i then Inl (Bad_buffer_index (int i))
      else
        (case mips_ejtag_fastdata_scan write_t (buffer ! i) l of
           (retval, v, l') \<Rightarrow>
             if retval \<noteq> ERROR_OK then Inr (retval, buffer[i := v], l')
             else fastdata_loop write_t k (Suc i) (buffer[i := v]) l'))"

definition mips32_pracc_fastdata_xfer ::
  "pracc_h \<Rightarrow> working_area \<Rightarrow> int \<Rightarrow> u32 \<Rightarrow> int \<Rightarrow> u32 list \<Rightarrow> mips_ejtag
   \<Rightarrow> fault + (retval \<times> u32 list \<times> mips_ejtag)" where
  "mips32_pracc_fastdata_xfer h source write_t addr count buffer l =
     (if wa_size source < MIPS32_FASTDATA_HANDLER_SIZE h
      then Inr (ERROR_TARGET_RESOURCE_NOT_AVAILABLE, buffer, l)
      else
        case (if write_t \<noteq> fast_access_save l then
                (case mips32_pracc_write_mem32 (mips32_pracc_exec h) h (wa_address source)
                        (int (length (handler_code h write_t))) (handler_code h write_t) l of
                   Inl f \<Rightarrow> Inl f
                 | Inr (r, l') \<Rightarrow> Inr (l'\<lparr>fast_access_save := write_t\<rparr>))
              else Inr l) of
          Inl f \<Rightarrow> Inl f
        | Inr l1 \<Rightarrow>
           (case jmp_loop h (jmp_code h (wa_address source)) l1 of
              (retval, l2) \<Rightarrow>
           if retval \<noteq> ERROR_OK then Inr (retval, buffer, l2) else
           (case wait_for_pracc_rw h l2 of
              (retval, ctrl, l3) \<Rightarrow>
           if retval \<noteq> ERROR_OK then Inr (retval, buffer, l3) else
           (case mips_ejtag_drscan_32 0 (mips_ejtag_set_instr EJTAG_INST_ADDRESS l3) of
              (retval, address, l4) \<Rightarrow>
           if retval \<noteq> ERROR_OK then Inr (retval, buffer, l4) else
           if address \<noteq> MIPS32_PRACC_FASTDATA_AREA h then Inr (ERROR_FAIL, buffer, l4) else
           (case wait_for_pracc_rw h l4 of
              (retval, ctrl, l5) \<Rightarrow>
           if retval \<noteq> ERROR_OK then Inr (retval, buffer, l5) else
           (let l6 = mips_ejtag_set_instr EJTAG_INST_FASTDATA l5;
                l7 = snd (snd (mips_ejtag_fastdata_scan 1 addr l6));
                l8 = snd (snd (mips_ejtag_fastdata_scan 1 (addr + word_of_int ((count - 1) * 4)) l7))
            in case fastdata_loop write_t (nat count) 0 buffer l8 of
                 Inl f \<Rightarrow> Inl f
               | Inr (retval, buffer', l9) \<Rightarrow>
           if retval \<noteq> ERROR_OK then Inr (retval, buffer', l9) else
           (case jtag_execute_queue l9 of
              (retval, l10) \<Rightarrow>
           if retval \<noteq> ERROR_OK then Inr (retval, buffer', l10) else
           (case wait_for_pracc_rw h l10 of
              (retval, ctrl, l11) \<Rightarrow>
           if retval \<noteq> ERROR_OK then Inr (retval, buffer', l11) else
           (case mips_ejtag_drscan_32 0 (mips_ejtag_set_instr EJTAG_INST_ADDRESS l11) of
              (retval, address, l12) \<Rightarrow> Inr (retval, buffer', l12))))))))))"

section \<open>Properties of the PrAcc executor\<close>

subsection \<open>A debug segment and a link to run the executor on\<close>

text \<open>
  A layout of the debug segment to run the executor on (the values that the EJTAG
  specification and the upstream header use), and a link that answers the given scans.
\<close>

definition example_h :: pracc_h where
  "example_h = \<lparr>EJTAG_CTRL_PRACC = push_bit 18 1, EJTAG_CTRL_PRNW = push_bit 19 1,
     MIPS32_PRACC_TEXT = 0xFF200200, MIPS32_PRACC_STACK = 0xFF204000,
     MIPS32_PRACC_PARAM_IN = 0xFF201000, MIPS32_PRACC_PARAM_OUT = 0xFF202000,
     MIPS32_PRACC_FASTDATA_AREA = 0xFF200000, MIPS32_FASTDATA_HANDLER_SIZE = 0x80,
     UPPER16 = (\<lambda>v. drop_bit 16 v), LOWER16 = (\<lambda>v. v AND 0xFFFF),
     NEG16 = (\<lambda>v. (NOT v + 1) AND 0xFFFF)\<rparr>"

definition example_link :: "(retval \<times> u32) list \<Rightarrow> mips_ejtag" where
  "example_link answers = \<lparr>ejtag_ctrl = 0x0004C000, fast_access_save = - 1,
     scan_answers = answers, fastdata_answers = [],
     queue_answers = [ERROR_OK, ERROR_OK, ERROR_OK, ERROR_OK, ERROR_OK, ERROR_OK],
     timeline = [], now = 0, ops = []\<rparr>"

lemmas link_defs = mips_ejtag_set_instr_def mips_ejtag_drscan_32_def mips_ejtag_drscan_32_out_def
  jtag_execute_queue_def timeval_ms_def

lemmas exec_defs = pracc_run_def pracc_loop.simps pracc_cycle_def wait_for_pracc_rw_def
  wait_loop.simps mips32_pracc_exec_read_def mips32_pracc_exec_write_def in_arena_def
  arena_offset_def fetch_def store_def Let_def

subsection \<open>Claim C4: when the service loop ends\<close>

text \<open>
  What the processor presents on the link. An access is the reading of the clock when the
  wait for it begins, the control words read while PrAcc is still 0, each with the reading
  of the clock taken after it, the control word that shows the access (PrAcc set; PRNW set
  for a write), the address register, and for a write the data register. An access is shown
  when no poll is later than 1000 ms after the wait began (as the code computes it, in an
  \<^verbatim>\<open>int\<close>). A link presents a list of accesses when its scans and its clock will answer these
  words, in this order and without error, and every \<^verbatim>\<open>jtag_execute_queue\<close> succeeds (two are
  needed for each access).
\<close>

record access =
  acc_then :: int
  acc_polls :: "(u32 \<times> int) list"
  acc_ctrl :: u32
  acc_addr :: u32
  acc_data :: u32

definition is_write :: "pracc_h \<Rightarrow> access \<Rightarrow> bool" where
  "is_write h a = (acc_ctrl a AND EJTAG_CTRL_PRNW h \<noteq> 0)"

definition text_read :: "pracc_h \<Rightarrow> access \<Rightarrow> bool" where
  "text_read h a = (\<not> is_write h a \<and> acc_addr a = MIPS32_PRACC_TEXT h)"

definition in_time :: "int \<Rightarrow> int \<Rightarrow> bool" where
  "in_time then_ms t = (\<not> sint (word_of_int (t - then_ms) :: 32 word) > 1000)"

definition shown :: "pracc_h \<Rightarrow> access \<Rightarrow> bool" where
  "shown h a =
     (list_all (\<lambda>(c, t). c AND EJTAG_CTRL_PRACC h = 0 \<and> in_time (acc_then a) t) (acc_polls a)
      \<and> acc_ctrl a AND EJTAG_CTRL_PRACC h \<noteq> 0)"

definition answers_of :: "pracc_h \<Rightarrow> access \<Rightarrow> (retval \<times> u32) list" where
  "answers_of h a = map (Pair ERROR_OK)
     (map fst (acc_polls a) @ [acc_ctrl a, acc_addr a]
      @ (if is_write h a then [acc_data a] else []))"

definition script :: "pracc_h \<Rightarrow> access list \<Rightarrow> (retval \<times> u32) list" where
  "script h accs = concat (map (answers_of h) accs)"

definition ticks_of :: "access \<Rightarrow> int list" where
  "ticks_of a = acc_then a # map snd (acc_polls a)"

definition ticks :: "access list \<Rightarrow> int list" where
  "ticks accs = concat (map ticks_of accs)"

definition presents :: "pracc_h \<Rightarrow> access list \<Rightarrow> mips_ejtag \<Rightarrow> bool" where
  "presents h accs l =
     (scan_answers l = script h accs \<and> timeline l = ticks accs \<and> list_all (shown h) accs
      \<and> list_all (\<lambda>r. r = ERROR_OK) (queue_answers l)
      \<and> 2 * length accs \<le> length (queue_answers l))"

text \<open>
  What is seen on the link when an access is taken in: \<open>seen_ops\<close> is the wait for PrAcc and
  the scan of the address register (\<open>ec\<close> is \<^verbatim>\<open>ejtag_info->ejtag_ctrl\<close>, shifted in by the first
  poll); \<open>service_ops\<close> is the service, the data register shifted out with the word \<open>d\<close> for a
  read and scanned for a write, then the control register written with PrAcc cleared.
\<close>

definition seen_ops :: "u32 \<Rightarrow> access \<Rightarrow> ejtag_op list" where
  "seen_ops ec a = [Set_instr EJTAG_INST_CONTROL, Execute_queue]
     @ map Drscan_32 (ec # map fst (acc_polls a)) @ [Set_instr EJTAG_INST_ADDRESS, Drscan_32 0]"

definition service_ops :: "pracc_h \<Rightarrow> u32 \<Rightarrow> access \<Rightarrow> u32 \<Rightarrow> ejtag_op list" where
  "service_ops h ec a d =
     [Set_instr EJTAG_INST_DATA, (if is_write h a then Drscan_32 0 else Drscan_32_out d),
      Set_instr EJTAG_INST_CONTROL, Drscan_32_out (ec AND NOT (EJTAG_CTRL_PRACC h)),
      Execute_queue]"

definition served_ops :: "pracc_h \<Rightarrow> u32 \<Rightarrow> access \<Rightarrow> u32 \<Rightarrow> ejtag_op list" where
  "served_ops h ec a d = seen_ops ec a @ service_ops h ec a d"

text \<open>
  The accesses that the service routines accept without an error return and without leaving
  an array: a word of the input or output parameters, a word of the code (reads only), a pop
  from a stack that is not empty, a push on a stack that is not full. The arenas are tested
  in the order of the code. \<open>after\<close> moves the stack offset as an accepted access does, and
  a list of accesses is serviceable when each is accepted at the stack offset where it
  arrives.
\<close>

definition acceptable :: "pracc_h \<Rightarrow> mips32_pracc_context \<Rightarrow> access \<Rightarrow> bool" where
  "acceptable h ctx a =
     (if in_arena (acc_addr a) (MIPS32_PRACC_PARAM_IN h) (num_iparam ctx) then
        arena_offset (acc_addr a) (MIPS32_PRACC_PARAM_IN h) < int (length (local_iparam ctx))
      else if in_arena (acc_addr a) (MIPS32_PRACC_PARAM_OUT h) (num_oparam ctx) then
        arena_offset (acc_addr a) (MIPS32_PRACC_PARAM_OUT h) < int (length (local_oparam ctx))
      else if is_write h a then
        acc_addr a = MIPS32_PRACC_STACK h
        \<and> 0 \<le> stack_offset ctx \<and> stack_offset ctx < int (length (stack ctx))
      else if in_arena (acc_addr a) (MIPS32_PRACC_TEXT h) (code_len ctx) then
        arena_offset (acc_addr a) (MIPS32_PRACC_TEXT h) < int (length (code ctx))
      else
        acc_addr a = MIPS32_PRACC_STACK h
        \<and> 1 \<le> stack_offset ctx \<and> stack_offset ctx \<le> int (length (stack ctx)))"

definition after :: "pracc_h \<Rightarrow> mips32_pracc_context \<Rightarrow> access \<Rightarrow> mips32_pracc_context" where
  "after h ctx a =
     (if in_arena (acc_addr a) (MIPS32_PRACC_PARAM_IN h) (num_iparam ctx)
         \<or> in_arena (acc_addr a) (MIPS32_PRACC_PARAM_OUT h) (num_oparam ctx) then ctx
      else if is_write h a then ctx\<lparr>stack_offset := stack_offset ctx + 1\<rparr>
      else if in_arena (acc_addr a) (MIPS32_PRACC_TEXT h) (code_len ctx) then ctx
      else ctx\<lparr>stack_offset := stack_offset ctx - 1\<rparr>)"

fun serviceable :: "pracc_h \<Rightarrow> mips32_pracc_context \<Rightarrow> access list \<Rightarrow> bool" where
  "serviceable h ctx [] = True"
| "serviceable h ctx (a # as) = (acceptable h ctx a \<and> serviceable h (after h ctx a) as)"

text \<open>
  A read that falls into the code arena is answered with the word of \<^verbatim>\<open>code\<close> at its offset.
\<close>

definition fetched :: "pracc_h \<Rightarrow> mips32_pracc_context \<Rightarrow> access \<Rightarrow> u32 \<Rightarrow> bool" where
  "fetched h ctx a d =
     (\<not> is_write h a
      \<and> \<not> in_arena (acc_addr a) (MIPS32_PRACC_PARAM_IN h) (num_iparam ctx)
      \<and> \<not> in_arena (acc_addr a) (MIPS32_PRACC_PARAM_OUT h) (num_oparam ctx)
      \<and> in_arena (acc_addr a) (MIPS32_PRACC_TEXT h) (code_len ctx)
      \<longrightarrow> d = code ctx ! nat (arena_offset (acc_addr a) (MIPS32_PRACC_TEXT h)))"

text \<open>
  The part of the context that decides what is accepted and fetched; the contents of the
  parameter arrays and of the stack are not part of it.
\<close>

definition shape ::
  "mips32_pracc_context \<Rightarrow> int \<times> nat \<times> int \<times> nat \<times> int \<times> u32 list \<times> nat \<times> int" where
  "shape ctx = (num_iparam ctx, length (local_iparam ctx), num_oparam ctx,
     length (local_oparam ctx), code_len ctx, code ctx, length (stack ctx), stack_offset ctx)"

text \<open>
  The link after the access \<open>a\<close> was the last one taken in: the accesses \<open>rest\<close> remain to be
  presented, \<open>nq\<close> answers of \<^verbatim>\<open>jtag_execute_queue\<close> are used up, the clock was last read in
  the wait for \<open>a\<close>, and the operations \<open>os\<close> were issued.
\<close>

definition taken ::
  "pracc_h \<Rightarrow> access \<Rightarrow> access list \<Rightarrow> nat \<Rightarrow> ejtag_op list \<Rightarrow> mips_ejtag \<Rightarrow> mips_ejtag" where
  "taken h a rest nq os l =
     l\<lparr>scan_answers := script h rest, queue_answers := drop nq (queue_answers l),
       timeline := ticks rest, now := last (ticks_of a), ops := ops l @ os\<rparr>"

text \<open>
  A round that does not let the run return \<^verbatim>\<open>ERROR_OK\<close>.
\<close>

definition not_ok :: "pracc_step \<Rightarrow> bool" where
  "not_ok st = (case st of Faulted f \<Rightarrow> True | Returned r c l \<Rightarrow> r \<noteq> ERROR_OK
                | Broke c p l \<Rightarrow> False | Served c p l \<Rightarrow> False)"

text \<open>
  The context \<^verbatim>\<open>mips32_pracc_exec\<close> starts from, and the place where a run with \<^verbatim>\<open>cycle\<close> other
  than 0 stops: the index \<open>k\<close> of a read at \<^verbatim>\<open>MIPS32_PRACC_TEXT\<close> with exactly one such read
  before it, all accesses before it being serviceable.
\<close>

definition start_context ::
  "int \<Rightarrow> u32 list \<Rightarrow> int \<Rightarrow> u32 list \<Rightarrow> int \<Rightarrow> u32 list \<Rightarrow> mips32_pracc_context" where
  "start_context cl cd ni pin no pout =
     \<lparr>local_iparam = pin, num_iparam = ni, local_oparam = pout, num_oparam = no,
      code = cd, code_len = cl, stack = replicate 32 0, stack_offset = 0\<rparr>"

definition stops_at :: "pracc_h \<Rightarrow> mips32_pracc_context \<Rightarrow> access list \<Rightarrow> nat \<Rightarrow> bool" where
  "stops_at h ctx accs k =
     (k < length accs \<and> text_read h (accs ! k)
      \<and> length (filter (text_read h) (take k accs)) = 1
      \<and> serviceable h ctx (take k accs))"

lemma wait_loop_polls:
  assumes "list_all (\<lambda>(c, t). c AND EJTAG_CTRL_PRACC h = 0 \<and> in_time then_ms t) ps"
    and "c AND EJTAG_CTRL_PRACC h \<noteq> 0"
    and "scan_answers l = map (Pair ERROR_OK) (map fst ps @ [c]) @ later"
    and "timeline l = map snd ps @ tlater"
  shows "wait_loop h then_ms x l
         = (ERROR_OK, c, l\<lparr>scan_answers := later, timeline := tlater,
                            now := last (now l # map snd ps),
                            ops := ops l @ map Drscan_32 (x # map fst ps)\<rparr>)"
  using assms
proof (induction ps arbitrary: x l)
  case Nil
  then have "wait_loop h then_ms x l
     = (ERROR_OK, c, l\<lparr>scan_answers := later, ops := ops l @ [Drscan_32 x]\<rparr>)"
    by (subst wait_loop.simps) (simp add: mips_ejtag_drscan_32_def)
  moreover from Nil have "l\<lparr>scan_answers := later, timeline := tlater, now := now l,
      ops := ops l @ [Drscan_32 x]\<rparr> = l\<lparr>scan_answers := later, ops := ops l @ [Drscan_32 x]\<rparr>"
    by simp
  ultimately show ?case by simp
next
  case (Cons pt ps)
  obtain p t where pt: "pt = (p, t)" by (cases pt) auto
  define l1 where "l1 = l\<lparr>scan_answers := map (Pair ERROR_OK) (map fst ps @ [c]) @ later,
               ops := ops l @ [Drscan_32 x]\<rparr>"
  define l2 where "l2 = l1\<lparr>timeline := map snd ps @ tlater, now := t\<rparr>"
  from Cons.prems pt have d: "mips_ejtag_drscan_32 x l = (ERROR_OK, p, l1)"
    by (simp add: mips_ejtag_drscan_32_def l1_def)
  from Cons.prems pt have p0: "p AND EJTAG_CTRL_PRACC h = 0"
    and it: "\<not> sint (word_of_int (t - then_ms) :: 32 word) > 1000"
    by (simp_all add: in_time_def)
  from Cons.prems pt have tm: "timeval_ms l1 = (t, l2)"
    by (simp add: timeval_ms_def l1_def l2_def)
  have "wait_loop h then_ms p l2
     = (ERROR_OK, c, l2\<lparr>scan_answers := later, timeline := tlater,
                        now := last (now l2 # map snd ps),
                        ops := ops l2 @ map Drscan_32 (p # map fst ps)\<rparr>)"
    using Cons.prems pt by (intro Cons.IH) (simp_all add: l1_def l2_def)
  then have ih: "wait_loop h then_ms p l2
     = (ERROR_OK, c, l\<lparr>scan_answers := later, timeline := tlater,
                       now := last (now l # map snd (pt # ps)),
                       ops := ops l @ map Drscan_32 (x # map fst (pt # ps))\<rparr>)"
    by (simp add: l1_def l2_def pt)
  have "wait_loop h then_ms x l = wait_loop h then_ms p l2"
    using it by (subst wait_loop.simps) (simp add: d p0 tm)
  with ih show ?case by simp
qed

lemma wait_presented:
  assumes "presents h (a # rest) l"
  shows "wait_for_pracc_rw h l
     = (ERROR_OK, acc_ctrl a,
        l\<lparr>scan_answers := map (Pair ERROR_OK)
              (acc_addr a # (if is_write h a then [acc_data a] else [])) @ script h rest,
          queue_answers := tl (queue_answers l),
          timeline := ticks rest, now := last (ticks_of a),
          ops := ops l @ [Set_instr EJTAG_INST_CONTROL, Execute_queue]
                 @ map Drscan_32 (ejtag_ctrl l # map fst (acc_polls a))\<rparr>)"
proof -
  from assms obtain qs where q: "queue_answers l = ERROR_OK # qs"
    by (cases "queue_answers l") (auto simp: presents_def)
  from assms have tl: "timeline l = acc_then a # map snd (acc_polls a) @ ticks rest"
    by (simp add: presents_def ticks_def ticks_of_def)
  from assms have sh:
    "list_all (\<lambda>(c, t). c AND EJTAG_CTRL_PRACC h = 0 \<and> in_time (acc_then a) t) (acc_polls a)"
    "acc_ctrl a AND EJTAG_CTRL_PRACC h \<noteq> 0"
    by (simp_all add: presents_def shown_def)
  let ?later = "map (Pair ERROR_OK)
              (acc_addr a # (if is_write h a then [acc_data a] else [])) @ script h rest"
  define l2 where "l2 = l\<lparr>timeline := map snd (acc_polls a) @ ticks rest,
     now := acc_then a, queue_answers := qs,
     ops := ops l @ [Set_instr EJTAG_INST_CONTROL, Execute_queue]\<rparr>"
  from assms have sa: "scan_answers l2
      = map (Pair ERROR_OK) (map fst (acc_polls a) @ [acc_ctrl a]) @ ?later"
    by (simp add: presents_def script_def answers_of_def l2_def)
  have tl2: "timeline l2 = map snd (acc_polls a) @ ticks rest" by (simp add: l2_def)
  have wl: "wait_loop h (acc_then a) (ejtag_ctrl l) l2
     = (ERROR_OK, acc_ctrl a,
        l2\<lparr>scan_answers := ?later, timeline := ticks rest,
           now := last (now l2 # map snd (acc_polls a)),
           ops := ops l2 @ map Drscan_32 (ejtag_ctrl l # map fst (acc_polls a))\<rparr>)"
    by (rule wait_loop_polls [OF sh sa tl2])
  have "wait_for_pracc_rw h l = wait_loop h (acc_then a) (ejtag_ctrl l) l2"
    by (simp add: wait_for_pracc_rw_def timeval_ms_def tl mips_ejtag_set_instr_def
        jtag_execute_queue_def q Let_def l2_def)
  moreover have "l2\<lparr>scan_answers := ?later, timeline := ticks rest,
           now := last (now l2 # map snd (acc_polls a)),
           ops := ops l2 @ map Drscan_32 (ejtag_ctrl l # map fst (acc_polls a))\<rparr>
     = l\<lparr>scan_answers := ?later,
          queue_answers := tl (queue_answers l),
          timeline := ticks rest, now := last (ticks_of a),
          ops := ops l @ [Set_instr EJTAG_INST_CONTROL, Execute_queue]
                 @ map Drscan_32 (ejtag_ctrl l # map fst (acc_polls a))\<rparr>"
    by (rule mips_ejtag.equality) (simp_all add: l2_def ticks_of_def q)
  ultimately show ?thesis using wl by simp
qed

lemma arena_offset_nonneg [simp]: "0 \<le> arena_offset a b"
  by (simp add: arena_offset_def)

lemma exec_read_acceptable:
  assumes "\<not> is_write h a" and "acceptable h ctx a" and "queue_answers l = ERROR_OK # qs"
  shows "\<exists>d ctx'. mips32_pracc_exec_read h ctx (acc_addr a) l
           = Inr (ERROR_OK, ctx',
                  l\<lparr>queue_answers := qs, ops := ops l @ service_ops h (ejtag_ctrl l) a d\<rparr>)
         \<and> fetched h ctx a d \<and> shape ctx' = shape (after h ctx a)"
proof -
  consider (pin) "in_arena (acc_addr a) (MIPS32_PRACC_PARAM_IN h) (num_iparam ctx)"
    | (pout) "\<not> in_arena (acc_addr a) (MIPS32_PRACC_PARAM_IN h) (num_iparam ctx)"
        "in_arena (acc_addr a) (MIPS32_PRACC_PARAM_OUT h) (num_oparam ctx)"
    | (code_area) "\<not> in_arena (acc_addr a) (MIPS32_PRACC_PARAM_IN h) (num_iparam ctx)"
        "\<not> in_arena (acc_addr a) (MIPS32_PRACC_PARAM_OUT h) (num_oparam ctx)"
        "in_arena (acc_addr a) (MIPS32_PRACC_TEXT h) (code_len ctx)"
    | (stack) "\<not> in_arena (acc_addr a) (MIPS32_PRACC_PARAM_IN h) (num_iparam ctx)"
        "\<not> in_arena (acc_addr a) (MIPS32_PRACC_PARAM_OUT h) (num_oparam ctx)"
        "\<not> in_arena (acc_addr a) (MIPS32_PRACC_TEXT h) (code_len ctx)"
    by blast
  then show ?thesis
  proof cases
    case pin
    with assms show ?thesis
      by (auto simp: mips32_pracc_exec_read_def acceptable_def after_def fetched_def
          service_ops_def fetch_def Let_def mips_ejtag_set_instr_def
          mips_ejtag_drscan_32_out_def jtag_execute_queue_def)
  next
    case pout
    with assms show ?thesis
      by (auto simp: mips32_pracc_exec_read_def acceptable_def after_def fetched_def
          service_ops_def fetch_def Let_def mips_ejtag_set_instr_def
          mips_ejtag_drscan_32_out_def jtag_execute_queue_def)
  next
    case code_area
    with assms show ?thesis
      by (auto simp: mips32_pracc_exec_read_def acceptable_def after_def fetched_def
          service_ops_def fetch_def Let_def mips_ejtag_set_instr_def
          mips_ejtag_drscan_32_out_def jtag_execute_queue_def)
  next
    case stack
    with assms show ?thesis
      by (auto simp: mips32_pracc_exec_read_def acceptable_def after_def fetched_def
          service_ops_def fetch_def Let_def mips_ejtag_set_instr_def
          mips_ejtag_drscan_32_out_def jtag_execute_queue_def shape_def)
  qed
qed

lemma exec_read_unacceptable:
  assumes "\<not> is_write h a" and "\<not> acceptable h ctx a"
  shows "mips32_pracc_exec_read h ctx (acc_addr a) l \<noteq> Inr (ERROR_OK, ctx', l')"
proof -
  consider (pin) "in_arena (acc_addr a) (MIPS32_PRACC_PARAM_IN h) (num_iparam ctx)"
    | (pout) "\<not> in_arena (acc_addr a) (MIPS32_PRACC_PARAM_IN h) (num_iparam ctx)"
        "in_arena (acc_addr a) (MIPS32_PRACC_PARAM_OUT h) (num_oparam ctx)"
    | (code_area) "\<not> in_arena (acc_addr a) (MIPS32_PRACC_PARAM_IN h) (num_iparam ctx)"
        "\<not> in_arena (acc_addr a) (MIPS32_PRACC_PARAM_OUT h) (num_oparam ctx)"
        "in_arena (acc_addr a) (MIPS32_PRACC_TEXT h) (code_len ctx)"
    | (stack) "\<not> in_arena (acc_addr a) (MIPS32_PRACC_PARAM_IN h) (num_iparam ctx)"
        "\<not> in_arena (acc_addr a) (MIPS32_PRACC_PARAM_OUT h) (num_oparam ctx)"
        "\<not> in_arena (acc_addr a) (MIPS32_PRACC_TEXT h) (code_len ctx)"
        "acc_addr a = MIPS32_PRACC_STACK h"
    | (other) "\<not> in_arena (acc_addr a) (MIPS32_PRACC_PARAM_IN h) (num_iparam ctx)"
        "\<not> in_arena (acc_addr a) (MIPS32_PRACC_PARAM_OUT h) (num_oparam ctx)"
        "\<not> in_arena (acc_addr a) (MIPS32_PRACC_TEXT h) (code_len ctx)"
        "acc_addr a \<noteq> MIPS32_PRACC_STACK h"
    by blast
  then show ?thesis
  proof cases
    case pin
    with assms show ?thesis
      by (simp add: mips32_pracc_exec_read_def acceptable_def fetch_def Let_def)
  next
    case pout
    with assms show ?thesis
      by (simp add: mips32_pracc_exec_read_def acceptable_def fetch_def Let_def)
  next
    case code_area
    with assms show ?thesis
      by (simp add: mips32_pracc_exec_read_def acceptable_def fetch_def Let_def)
  next
    case stack
    with assms have "\<not> (0 \<le> stack_offset ctx - 1 \<and> stack_offset ctx - 1 < int (length (stack ctx)))"
      by (simp add: acceptable_def) arith
    with stack show ?thesis
      by (auto simp: mips32_pracc_exec_read_def fetch_def Let_def)
  next
    case other
    then show ?thesis
      by (simp add: mips32_pracc_exec_read_def Let_def)
  qed
qed

lemma exec_write_acceptable:
  assumes "is_write h a" and "acceptable h ctx a" and "queue_answers l = ERROR_OK # qs"
    and "scan_answers l = (ERROR_OK, acc_data a) # later"
  shows "\<exists>ctx'. mips32_pracc_exec_write h ctx (acc_addr a) l
           = Inr (ERROR_OK, ctx',
                  l\<lparr>scan_answers := later, queue_answers := qs,
                    ops := ops l @ service_ops h (ejtag_ctrl l) a d\<rparr>)
         \<and> shape ctx' = shape (after h ctx a)"
proof -
  consider (pin) "in_arena (acc_addr a) (MIPS32_PRACC_PARAM_IN h) (num_iparam ctx)"
    | (pout) "\<not> in_arena (acc_addr a) (MIPS32_PRACC_PARAM_IN h) (num_iparam ctx)"
        "in_arena (acc_addr a) (MIPS32_PRACC_PARAM_OUT h) (num_oparam ctx)"
    | (stack) "\<not> in_arena (acc_addr a) (MIPS32_PRACC_PARAM_IN h) (num_iparam ctx)"
        "\<not> in_arena (acc_addr a) (MIPS32_PRACC_PARAM_OUT h) (num_oparam ctx)"
    by blast
  then show ?thesis
  proof cases
    case pin
    with assms show ?thesis
      by (simp add: mips32_pracc_exec_write_def acceptable_def after_def shape_def
          service_ops_def store_def Let_def mips_ejtag_set_instr_def
          mips_ejtag_drscan_32_out_def mips_ejtag_drscan_32_def jtag_execute_queue_def)
  next
    case pout
    with assms show ?thesis
      by (simp add: mips32_pracc_exec_write_def acceptable_def after_def shape_def
          service_ops_def store_def Let_def mips_ejtag_set_instr_def
          mips_ejtag_drscan_32_out_def mips_ejtag_drscan_32_def jtag_execute_queue_def)
  next
    case stack
    with assms show ?thesis
      by (simp add: mips32_pracc_exec_write_def acceptable_def after_def shape_def
          service_ops_def store_def Let_def mips_ejtag_set_instr_def
          mips_ejtag_drscan_32_out_def mips_ejtag_drscan_32_def jtag_execute_queue_def)
  qed
qed

lemma exec_write_unacceptable:
  assumes "is_write h a" and "\<not> acceptable h ctx a"
  shows "mips32_pracc_exec_write h ctx (acc_addr a) l \<noteq> Inr (ERROR_OK, ctx', l')"
proof -
  obtain r1 d l2 where
    sc: "mips_ejtag_drscan_32 0 (mips_ejtag_set_instr EJTAG_INST_DATA l) = (r1, d, l2)"
    by (cases "mips_ejtag_drscan_32 0 (mips_ejtag_set_instr EJTAG_INST_DATA l)") auto
  obtain r2 l5 where
    q: "jtag_execute_queue (mips_ejtag_drscan_32_out (ejtag_ctrl l2 AND NOT (EJTAG_CTRL_PRACC h))
          (mips_ejtag_set_instr EJTAG_INST_CONTROL l2)) = (r2, l5)"
    by (cases "jtag_execute_queue (mips_ejtag_drscan_32_out
          (ejtag_ctrl l2 AND NOT (EJTAG_CTRL_PRACC h))
          (mips_ejtag_set_instr EJTAG_INST_CONTROL l2))") auto
  consider (pin) "in_arena (acc_addr a) (MIPS32_PRACC_PARAM_IN h) (num_iparam ctx)"
    | (pout) "\<not> in_arena (acc_addr a) (MIPS32_PRACC_PARAM_IN h) (num_iparam ctx)"
        "in_arena (acc_addr a) (MIPS32_PRACC_PARAM_OUT h) (num_oparam ctx)"
    | (stack) "\<not> in_arena (acc_addr a) (MIPS32_PRACC_PARAM_IN h) (num_iparam ctx)"
        "\<not> in_arena (acc_addr a) (MIPS32_PRACC_PARAM_OUT h) (num_oparam ctx)"
        "acc_addr a = MIPS32_PRACC_STACK h"
    | (other) "\<not> in_arena (acc_addr a) (MIPS32_PRACC_PARAM_IN h) (num_iparam ctx)"
        "\<not> in_arena (acc_addr a) (MIPS32_PRACC_PARAM_OUT h) (num_oparam ctx)"
        "acc_addr a \<noteq> MIPS32_PRACC_STACK h"
    by blast
  then show ?thesis
  proof cases
    case pin
    with assms sc q show ?thesis
      by (simp add: mips32_pracc_exec_write_def acceptable_def store_def Let_def)
  next
    case pout
    with assms sc q show ?thesis
      by (simp add: mips32_pracc_exec_write_def acceptable_def store_def Let_def)
  next
    case stack
    with assms have "\<not> (0 \<le> stack_offset ctx \<and> stack_offset ctx < int (length (stack ctx)))"
      by (simp add: acceptable_def)
    with stack sc q show ?thesis
      by (auto simp: mips32_pracc_exec_write_def store_def Let_def)
  next
    case other
    with sc q show ?thesis
      by (simp add: mips32_pracc_exec_write_def Let_def)
  qed
qed


lemma shape_cong:
  assumes "shape c1 = shape c2"
  shows "acceptable h c1 a = acceptable h c2 a" and "fetched h c1 a d = fetched h c2 a d"
    and "shape (after h c1 a) = shape (after h c2 a)"
  using assms by (simp_all add: shape_def acceptable_def fetched_def after_def)

lemma fetched_after: "fetched h (after h cs a) b d = fetched h cs b d"
  by (simp add: fetched_def after_def)

lemma presents_queue:
  assumes "presents h (a # rest) l"
  shows "\<exists>qs. queue_answers l = ERROR_OK # ERROR_OK # qs"
proof -
  from assms have "2 \<le> length (queue_answers l)"
    and "list_all (\<lambda>r. r = ERROR_OK) (queue_answers l)"
    by (simp_all add: presents_def)
  then show ?thesis
    by (cases "queue_answers l"; cases "tl (queue_answers l)") auto
qed

lemma seen_presented:
  assumes "presents h (a # rest) l"
  shows "\<exists>l1. wait_for_pracc_rw h l = (ERROR_OK, acc_ctrl a, l1)
     \<and> mips_ejtag_drscan_32 0 (mips_ejtag_set_instr EJTAG_INST_ADDRESS l1)
       = (ERROR_OK, acc_addr a,
          l\<lparr>scan_answers := map (Pair ERROR_OK) (if is_write h a then [acc_data a] else [])
               @ script h rest,
            queue_answers := tl (queue_answers l),
            timeline := ticks rest, now := last (ticks_of a),
            ops := ops l @ seen_ops (ejtag_ctrl l) a\<rparr>)"
  by (simp add: wait_presented [OF assms] mips_ejtag_drscan_32_def mips_ejtag_set_instr_def
      seen_ops_def)

lemma presents_rest:
  assumes "presents h (a # rest) l"
  shows "presents h rest (taken h b rest 2 os l)"
  using assms by (auto simp: presents_def taken_def list_all_iff dest: in_set_dropD)

lemma cycle_broke:
  assumes "presents h (a # rest) l" and "text_read h a" and "pass \<noteq> 0"
  shows "pracc_cycle h ctx pass l
     = Broke ctx (pass + 1) (taken h a rest 1 (seen_ops (ejtag_ctrl l) a) l)"
proof -
  from seen_presented [OF assms(1)] obtain l1 where
    w: "wait_for_pracc_rw h l = (ERROR_OK, acc_ctrl a, l1)"
    and sc: "mips_ejtag_drscan_32 0 (mips_ejtag_set_instr EJTAG_INST_ADDRESS l1)
       = (ERROR_OK, acc_addr a,
          l\<lparr>scan_answers := map (Pair ERROR_OK) (if is_write h a then [acc_data a] else [])
               @ script h rest,
            queue_answers := tl (queue_answers l),
            timeline := ticks rest, now := last (ticks_of a),
            ops := ops l @ seen_ops (ejtag_ctrl l) a\<rparr>)"
    by blast
  from assms(2) have "acc_ctrl a AND EJTAG_CTRL_PRNW h = 0" "acc_addr a = MIPS32_PRACC_TEXT h"
    "\<not> is_write h a"
    by (simp_all add: text_read_def is_write_def)
  with w sc assms(3) show ?thesis
    by (simp add: pracc_cycle_def taken_def drop_Suc)
qed

lemma cycle_served:
  assumes "presents h (a # rest) l" and "\<not> (text_read h a \<and> pass \<noteq> 0)"
    and "acceptable h ctx a"
  shows "\<exists>d ctx'. pracc_cycle h ctx pass l
       = Served ctx' (if text_read h a then pass + 1 else pass)
           (taken h a rest 2 (served_ops h (ejtag_ctrl l) a d) l)
     \<and> fetched h ctx a d \<and> shape ctx' = shape (after h ctx a)"
proof -
  define l2 where "l2 = l\<lparr>scan_answers := map (Pair ERROR_OK)
               (if is_write h a then [acc_data a] else []) @ script h rest,
            queue_answers := tl (queue_answers l),
            timeline := ticks rest, now := last (ticks_of a),
            ops := ops l @ seen_ops (ejtag_ctrl l) a\<rparr>"
  from seen_presented [OF assms(1)] obtain l1 where
    w: "wait_for_pracc_rw h l = (ERROR_OK, acc_ctrl a, l1)"
    and sc: "mips_ejtag_drscan_32 0 (mips_ejtag_set_instr EJTAG_INST_ADDRESS l1)
       = (ERROR_OK, acc_addr a, l2)"
    unfolding l2_def by blast
  from presents_queue [OF assms(1)] obtain qs where
    q: "queue_answers l = ERROR_OK # ERROR_OK # qs" by blast
  then have q2: "queue_answers l2 = ERROR_OK # qs" by (simp add: l2_def)
  show ?thesis
  proof (cases "is_write h a")
    case True
    then have sa: "scan_answers l2 = (ERROR_OK, acc_data a) # script h rest"
      by (simp add: l2_def)
    from exec_write_acceptable [OF True assms(3) q2 sa, of 0] obtain ctx' where
      e: "mips32_pracc_exec_write h ctx (acc_addr a) l2
           = Inr (ERROR_OK, ctx',
                  l2\<lparr>scan_answers := script h rest, queue_answers := qs,
                    ops := ops l2 @ service_ops h (ejtag_ctrl l2) a 0\<rparr>)"
      and s: "shape ctx' = shape (after h ctx a)"
      by blast
    from True have nt: "\<not> text_read h a" "acc_ctrl a AND EJTAG_CTRL_PRNW h \<noteq> 0"
      by (simp_all add: text_read_def is_write_def)
    have "pracc_cycle h ctx pass l
       = Served ctx' pass (taken h a rest 2 (served_ops h (ejtag_ctrl l) a 0) l)"
      using w sc e nt q by (simp add: pracc_cycle_def l2_def served_ops_def taken_def)
    moreover from True have "fetched h ctx a 0" by (simp add: fetched_def)
    ultimately show ?thesis using s nt by auto
  next
    case False
    from exec_read_acceptable [OF False assms(3) q2] obtain d ctx' where
      e: "mips32_pracc_exec_read h ctx (acc_addr a) l2
           = Inr (ERROR_OK, ctx',
                  l2\<lparr>queue_answers := qs, ops := ops l2 @ service_ops h (ejtag_ctrl l2) a d\<rparr>)"
      and f: "fetched h ctx a d" and s: "shape ctx' = shape (after h ctx a)"
      by blast
    from False have nw: "acc_ctrl a AND EJTAG_CTRL_PRNW h = 0"
      and tr: "text_read h a = (acc_addr a = MIPS32_PRACC_TEXT h)"
      by (simp_all add: text_read_def is_write_def)
    have "pracc_cycle h ctx pass l
       = Served ctx' (if text_read h a then pass + 1 else pass)
           (taken h a rest 2 (served_ops h (ejtag_ctrl l) a d) l)"
      using w sc e nw tr q assms(2) False
      by (simp add: pracc_cycle_def l2_def served_ops_def Let_def taken_def)
    with f s show ?thesis by blast
  qed
qed

lemma cycle_refused:
  assumes "presents h (a # rest) l" and "\<not> (text_read h a \<and> pass \<noteq> 0)"
    and "\<not> acceptable h ctx a"
  shows "not_ok (pracc_cycle h ctx pass l)"
proof -
  from seen_presented [OF assms(1)] obtain l1 l2 where
    w: "wait_for_pracc_rw h l = (ERROR_OK, acc_ctrl a, l1)"
    and sc: "mips_ejtag_drscan_32 0 (mips_ejtag_set_instr EJTAG_INST_ADDRESS l1)
       = (ERROR_OK, acc_addr a, l2)"
    by blast
  show ?thesis
  proof (cases "is_write h a")
    case True
    then have nt: "acc_ctrl a AND EJTAG_CTRL_PRNW h \<noteq> 0" by (simp add: is_write_def)
    from exec_write_unacceptable [OF True assms(3)] w sc nt show ?thesis
      by (auto simp: pracc_cycle_def not_ok_def split: sum.splits)
  next
    case False
    then have nw: "acc_ctrl a AND EJTAG_CTRL_PRNW h = 0"
      and tr: "text_read h a = (acc_addr a = MIPS32_PRACC_TEXT h)"
      by (simp_all add: text_read_def is_write_def)
    from exec_read_unacceptable [OF False assms(3)] w sc nw tr assms(2) show ?thesis
      by (auto simp: pracc_cycle_def not_ok_def Let_def split: sum.splits)
  qed
qed

lemma cycle_silent:
  assumes "presents h [] l"
  shows "not_ok (pracc_cycle h ctx pass l)"
proof -
  from assms have sa: "scan_answers l = []" and tl: "timeline l = []"
    and qa: "list_all (\<lambda>r. r = ERROR_OK) (queue_answers l)"
    by (simp_all add: presents_def script_def ticks_def)
  have "\<exists>r c l1. wait_for_pracc_rw h l = (r, c, l1) \<and> r \<noteq> ERROR_OK"
  proof (cases "queue_answers l")
    case Nil
    then show ?thesis
      by (simp add: wait_for_pracc_rw_def timeval_ms_def tl jtag_execute_queue_def Let_def
          mips_ejtag_set_instr_def)
  next
    case (Cons r qs)
    with qa have "r = ERROR_OK" by simp
    with Cons sa show ?thesis
      by (simp add: wait_for_pracc_rw_def timeval_ms_def tl jtag_execute_queue_def Let_def
          mips_ejtag_set_instr_def wait_loop.simps mips_ejtag_drscan_32_def)
  qed
  then show ?thesis
    by (auto simp: pracc_cycle_def not_ok_def)
qed

lemma loop_not_ok:
  assumes "not_ok (pracc_cycle h ctx pass l)"
  shows "pracc_loop h cycle ctx pass l \<noteq> Inr (ERROR_OK, ctx', l')"
  using assms
  by (subst pracc_loop.simps) (auto simp: not_ok_def split: pracc_step.splits)


lemma taken_fields [simp]:
  "ejtag_ctrl (taken h a rest nq os l) = ejtag_ctrl l"
  "ops (taken h a rest nq os l) = ops l @ os"
  "queue_answers (taken h a rest nq os l) = drop nq (queue_answers l)"
  by (simp_all add: taken_def)

lemma taken_taken:
  "taken h b rest2 nq2 os2 (taken h a rest nq os l) = taken h b rest2 (nq + nq2) (os @ os2) l"
  by (simp add: taken_def add.commute)

lemma loop_stops:
  assumes "cycle \<noteq> 0"
  shows "presents h (pre @ fin # post) l \<Longrightarrow> shape ctx = shape cs \<Longrightarrow> serviceable h cs pre
    \<Longrightarrow> text_read h fin
    \<Longrightarrow> length (filter (text_read h) pre) = (if pass = 0 then 1 else 0)
    \<Longrightarrow> \<exists>ctx' ds. pracc_loop h cycle ctx pass l
          = Inr (ERROR_OK, ctx',
                 taken h fin post (2 * length pre + 1)
                   (concat (map2 (served_ops h (ejtag_ctrl l)) pre ds)
                    @ seen_ops (ejtag_ctrl l) fin) l)
        \<and> list_all2 (fetched h cs) pre ds"
proof (induction pre arbitrary: ctx cs pass l)
  case Nil
  then have p: "pass \<noteq> 0" by (simp split: if_splits)
  from Nil.prems(1) have pr: "presents h (fin # post) l" by simp
  from cycle_broke [OF pr Nil.prems(4) p, of ctx]
  have "pracc_loop h cycle ctx pass l
     = Inr (ERROR_OK, ctx, taken h fin post 1 (seen_ops (ejtag_ctrl l) fin) l)"
    by (subst pracc_loop.simps) simp
  then show ?case by simp
next
  case (Cons a pre)
  from Cons.prems(1) have pr: "presents h (a # (pre @ fin # post)) l" by simp
  from Cons.prems(3) have acs: "acceptable h cs a" and sv: "serviceable h (after h cs a) pre"
    by simp_all
  from acs shape_cong(1) [OF Cons.prems(2)] have ac: "acceptable h ctx a" by simp
  from Cons.prems(5) have nb: "\<not> (text_read h a \<and> pass \<noteq> 0)"
    by (auto split: if_splits)
  define l1 where "l1 d = taken h a (pre @ fin # post) 2 (served_ops h (ejtag_ctrl l) a d) l"
    for d
  define pass1 where "pass1 = (if text_read h a then pass + 1 else pass)"
  from cycle_served [OF pr nb ac] obtain d ctx1 where
    cy: "pracc_cycle h ctx pass l = Served ctx1 pass1 (l1 d)"
    and f: "fetched h ctx a d" and s1: "shape ctx1 = shape (after h ctx a)"
    unfolding l1_def pass1_def by blast
  from s1 shape_cong(3) [OF Cons.prems(2)] have s1': "shape ctx1 = shape (after h cs a)"
    by simp
  have pr1: "presents h (pre @ fin # post) (l1 d)"
    unfolding l1_def by (rule presents_rest [OF pr])
  from Cons.prems(5) have cnt: "length (filter (text_read h) pre) = (if pass1 = 0 then 1 else 0)"
    by (auto simp: pass1_def split: if_splits)
  from Cons.IH [OF pr1 s1' sv Cons.prems(4) cnt] obtain ctx' ds where
    rec: "pracc_loop h cycle ctx1 pass1 (l1 d)
          = Inr (ERROR_OK, ctx',
                 taken h fin post (2 * length pre + 1)
                   (concat (map2 (served_ops h (ejtag_ctrl (l1 d))) pre ds)
                    @ seen_ops (ejtag_ctrl (l1 d)) fin) (l1 d))"
    and fs: "list_all2 (fetched h (after h cs a)) pre ds"
    by blast
  have "pracc_loop h cycle ctx pass l = pracc_loop h cycle ctx1 pass1 (l1 d)"
    using cy assms by (subst pracc_loop.simps) simp
  with rec have "pracc_loop h cycle ctx pass l
          = Inr (ERROR_OK, ctx',
                 taken h fin post (2 * length (a # pre) + 1)
                   (concat (map2 (served_ops h (ejtag_ctrl l)) (a # pre) (d # ds))
                    @ seen_ops (ejtag_ctrl l) fin) l)"
    by (simp add: l1_def taken_taken)
  moreover from f shape_cong(2) [OF Cons.prems(2)] fs
  have "list_all2 (fetched h cs) (a # pre) (d # ds)"
    by (simp add: fetched_after [abs_def])
  ultimately show ?case by blast
qed

lemma loop_ok_stops:
  assumes "cycle \<noteq> 0"
  shows "presents h accs l \<Longrightarrow> shape ctx = shape cs
    \<Longrightarrow> pracc_loop h cycle ctx pass l = Inr (ERROR_OK, ctx', l')
    \<Longrightarrow> \<exists>k<length accs. text_read h (accs ! k)
          \<and> length (filter (text_read h) (take k accs)) = (if pass = 0 then 1 else 0)
          \<and> serviceable h cs (take k accs)"
proof (induction accs arbitrary: ctx cs pass l)
  case Nil
  from loop_not_ok [OF cycle_silent [OF Nil.prems(1)]] Nil.prems(3) show ?case by blast
next
  case (Cons a rest)
  show ?case
  proof (cases "text_read h a \<and> pass \<noteq> 0")
    case True
    then have "text_read h ((a # rest) ! 0)
      \<and> length (filter (text_read h) (take 0 (a # rest))) = (if pass = 0 then 1 else 0)
      \<and> serviceable h cs (take 0 (a # rest))"
      by simp
    then show ?thesis by blast
  next
    case nb: False
    show ?thesis
    proof (cases "acceptable h ctx a")
      case False
      from loop_not_ok [OF cycle_refused [OF Cons.prems(1) nb False]] Cons.prems(3)
      show ?thesis by blast
    next
      case ac: True
      define l1 where "l1 d = taken h a rest 2 (served_ops h (ejtag_ctrl l) a d) l" for d
      define pass1 where "pass1 = (if text_read h a then pass + 1 else pass)"
      from cycle_served [OF Cons.prems(1) nb ac] obtain d ctx1 where
        cy: "pracc_cycle h ctx pass l = Served ctx1 pass1 (l1 d)"
        and s1: "shape ctx1 = shape (after h ctx a)"
        unfolding l1_def pass1_def by blast
      from s1 shape_cong(3) [OF Cons.prems(2)] have s1': "shape ctx1 = shape (after h cs a)"
        by simp
      have pr1: "presents h rest (l1 d)"
        unfolding l1_def by (rule presents_rest [OF Cons.prems(1)])
      have "pracc_loop h cycle ctx pass l = pracc_loop h cycle ctx1 pass1 (l1 d)"
        using cy assms by (subst pracc_loop.simps) simp
      with Cons.prems(3) have "pracc_loop h cycle ctx1 pass1 (l1 d) = Inr (ERROR_OK, ctx', l')"
        by simp
      from Cons.IH [OF pr1 s1' this] obtain k where
        k: "k < length rest" and t: "text_read h (rest ! k)"
        and c: "length (filter (text_read h) (take k rest)) = (if pass1 = 0 then 1 else 0)"
        and sv: "serviceable h (after h cs a) (take k rest)"
        by blast
      from ac shape_cong(1) [OF Cons.prems(2)] have acs: "acceptable h cs a" by simp
      from c nb have "length (filter (text_read h) (take (Suc k) (a # rest)))
          = (if pass = 0 then 1 else 0)"
        by (auto simp: pass1_def split: if_splits)
      with k t sv acs have "Suc k < length (a # rest) \<and> text_read h ((a # rest) ! Suc k)
         \<and> length (filter (text_read h) (take (Suc k) (a # rest))) = (if pass = 0 then 1 else 0)
         \<and> serviceable h cs (take (Suc k) (a # rest))"
        by simp
      then show ?thesis by blast
    qed
  qed
qed

lemma exec_ok:
  "(mips32_pracc_exec h cl cd ni pin no pout cycle l = Inr (ERROR_OK, pi, po, l'))
   = (\<exists>ctx'. pracc_loop h cycle (start_context cl cd ni pin no pout) 0 l
               = Inr (ERROR_OK, ctx', l')
             \<and> pi = local_iparam ctx' \<and> po = local_oparam ctx')"
  by (auto simp: mips32_pracc_exec_def pracc_run_def start_context_def
      split: sum.splits)

lemma exec_stops:
  assumes "presents h accs l" and "cycle \<noteq> 0"
    and "stops_at h (start_context cl cd ni pin no pout) accs k"
  shows "\<exists>pi po ds. mips32_pracc_exec h cl cd ni pin no pout cycle l
           = Inr (ERROR_OK, pi, po,
                  taken h (accs ! k) (drop (Suc k) accs) (2 * k + 1)
                    (concat (map2 (served_ops h (ejtag_ctrl l)) (take k accs) ds)
                     @ seen_ops (ejtag_ctrl l) (accs ! k)) l)
         \<and> list_all2 (fetched h (start_context cl cd ni pin no pout)) (take k accs) ds"
proof -
  let ?c = "start_context cl cd ni pin no pout"
  from assms(3) have k: "k < length accs" and t: "text_read h (accs ! k)"
    and c: "length (filter (text_read h) (take k accs)) = (if (0::int) = 0 then 1 else 0)"
    and sv: "serviceable h ?c (take k accs)"
    by (simp_all add: stops_at_def)
  from k have "accs = take k accs @ accs ! k # drop (Suc k) accs"
    by (simp add: id_take_nth_drop [symmetric])
  with assms(1) have pr: "presents h (take k accs @ accs ! k # drop (Suc k) accs) l" by simp
  from k have lk: "length (take k accs) = k" by simp
  from loop_stops [OF assms(2) pr refl sv t c] lk obtain ctx' ds where
    "pracc_loop h cycle ?c 0 l
       = Inr (ERROR_OK, ctx',
              taken h (accs ! k) (drop (Suc k) accs) (2 * k + 1)
                (concat (map2 (served_ops h (ejtag_ctrl l)) (take k accs) ds)
                 @ seen_ops (ejtag_ctrl l) (accs ! k)) l)"
    and "list_all2 (fetched h ?c) (take k accs) ds"
    by auto
  then show ?thesis
    unfolding exec_ok by blast
qed

lemma exec_single:
  assumes "presents h accs l" and "accs \<noteq> []"
    and "acceptable h (start_context cl cd ni pin no pout) (hd accs)"
  shows "\<exists>pi po d. mips32_pracc_exec h cl cd ni pin no pout 0 l
           = Inr (ERROR_OK, pi, po,
                  taken h (hd accs) (tl accs) 2 (served_ops h (ejtag_ctrl l) (hd accs) d) l)
         \<and> fetched h (start_context cl cd ni pin no pout) (hd accs) d"
proof -
  let ?c = "start_context cl cd ni pin no pout"
  from assms(2) obtain a rest where a: "accs = a # rest" by (cases accs) auto
  with assms have pr: "presents h (a # rest) l" and ac: "acceptable h ?c a" by simp_all
  from cycle_served [OF pr _ ac, of 0] obtain d ctx' where
    "pracc_cycle h ?c 0 l
       = Served ctx' (if text_read h a then 0 + 1 else 0)
           (taken h a rest 2 (served_ops h (ejtag_ctrl l) a d) l)"
    and f: "fetched h ?c a d"
    by auto
  then have "pracc_loop h 0 ?c 0 l
       = Inr (ERROR_OK, ctx', taken h a rest 2 (served_ops h (ejtag_ctrl l) a d) l)"
    by (subst pracc_loop.simps) simp
  with f a show ?thesis
    unfolding exec_ok by auto
qed

lemma exec_single_ok:
  assumes "presents h accs l"
    and "mips32_pracc_exec h cl cd ni pin no pout 0 l = Inr (ERROR_OK, pi, po, l')"
  shows "accs \<noteq> [] \<and> acceptable h (start_context cl cd ni pin no pout) (hd accs)"
proof -
  let ?c = "start_context cl cd ni pin no pout"
  from assms(2) obtain ctx' where
    lp: "pracc_loop h 0 ?c 0 l = Inr (ERROR_OK, ctx', l')"
    unfolding exec_ok by blast
  show ?thesis
  proof (cases accs)
    case Nil
    with assms(1) loop_not_ok [OF cycle_silent] lp show ?thesis by blast
  next
    case (Cons a rest)
    with assms(1) have pr: "presents h (a # rest) l" by simp
    have "acceptable h ?c a"
    proof (rule ccontr)
      assume "\<not> acceptable h ?c a"
      from loop_not_ok [OF cycle_refused [OF pr _ this, of 0]] lp show False by simp
    qed
    with Cons show ?thesis by simp
  qed
qed

text \<open>
  C4, as stated, fails in its \<open>exactly when\<close>: the loop also ends when a round fails. Here
  the first access is a read at \<^verbatim>\<open>0xFF203000\<close>, outside every arena; \<^verbatim>\<open>mips32_pracc_exec_read\<close>
  returns \<^verbatim>\<open>ERROR_JTAG_DEVICE_ERROR\<close> and the run with \<^verbatim>\<open>cycle == 1\<close> ends there: nothing was
  shifted out, no read at \<^verbatim>\<open>MIPS32_PRACC_TEXT\<close> was seen, and the read at that address which
  the processor would present next is never scanned.
\<close>

theorem pracc_exec_ends_on_error:
  "(case mips32_pracc_exec example_h 2 [0x11, 0x22] 0 [] 0 [] 1
      (example_link [(ERROR_OK, 0x0004C000), (ERROR_OK, 0xFF203000),
                     (ERROR_OK, 0x0004C000), (ERROR_OK, 0xFF200200)]) of
      Inl f \<Rightarrow> None
    | Inr (r, pi, po, l') \<Rightarrow> Some (r, scan_answers l', ops l'))
   = Some (ERROR_JTAG_DEVICE_ERROR,
       [(ERROR_OK, 0x0004C000), (ERROR_OK, 0xFF200200)],
       [Set_instr EJTAG_INST_CONTROL, Execute_queue, Drscan_32 0x0004C000,
        Set_instr EJTAG_INST_ADDRESS, Drscan_32 0])"
  by (simp add: mips32_pracc_exec_def exec_defs link_defs example_h_def example_link_def)

text \<open>
  C4 (amended): on a link that presents the accesses \<open>accs\<close> without error and in time,
  \<^verbatim>\<open>mips32_pracc_exec\<close> with \<^verbatim>\<open>cycle\<close> other than 0 (in particular 1) returns \<^verbatim>\<open>ERROR_OK\<close> exactly
  when \<open>accs\<close> holds a second read at \<^verbatim>\<open>MIPS32_PRACC_TEXT\<close> with only serviceable accesses
  before it. The run then ends at that read: every access before it, the first read at
  \<^verbatim>\<open>MIPS32_PRACC_TEXT\<close> included, has been served (a read of the code with the word of
  \<^verbatim>\<open>code\<close>), the second read has been seen but not served, and nothing behind it has been
  scanned; the operations issued on the link are exactly these. Every other end of the loop
  is an error return or an access outside an array. With \<^verbatim>\<open>cycle == 0\<close> the run returns
  \<^verbatim>\<open>ERROR_OK\<close> exactly when the first access is accepted, and it has then served this one
  access and nothing else.
\<close>

theorem pracc_exec_exit:
  assumes "presents h accs l" and "c0 = start_context cl cd ni pin no pout"
  shows "(cycle \<noteq> 0 \<longrightarrow>
            ((\<exists>pi po l'. mips32_pracc_exec h cl cd ni pin no pout cycle l
                           = Inr (ERROR_OK, pi, po, l'))
             = (\<exists>k. stops_at h c0 accs k))
          \<and> (\<forall>k. stops_at h c0 accs k \<longrightarrow>
                (\<exists>pi po ds. mips32_pracc_exec h cl cd ni pin no pout cycle l
                     = Inr (ERROR_OK, pi, po,
                         taken h (accs ! k) (drop (Suc k) accs) (2 * k + 1)
                           (concat (map2 (served_ops h (ejtag_ctrl l)) (take k accs) ds)
                            @ seen_ops (ejtag_ctrl l) (accs ! k)) l)
                   \<and> list_all2 (fetched h c0) (take k accs) ds)))
       \<and> (cycle = 0 \<longrightarrow>
            ((\<exists>pi po l'. mips32_pracc_exec h cl cd ni pin no pout cycle l
                           = Inr (ERROR_OK, pi, po, l'))
             = (accs \<noteq> [] \<and> acceptable h c0 (hd accs)))
          \<and> (accs \<noteq> [] \<and> acceptable h c0 (hd accs) \<longrightarrow>
                (\<exists>pi po d. mips32_pracc_exec h cl cd ni pin no pout cycle l
                     = Inr (ERROR_OK, pi, po,
                         taken h (hd accs) (tl accs) 2
                           (served_ops h (ejtag_ctrl l) (hd accs) d) l)
                   \<and> fetched h c0 (hd accs) d)))"
proof (intro conjI impI allI)
  assume cy: "cycle \<noteq> 0"
  show "(\<exists>pi po l'. mips32_pracc_exec h cl cd ni pin no pout cycle l
                           = Inr (ERROR_OK, pi, po, l'))
        = (\<exists>k. stops_at h c0 accs k)"
  proof
    assume "\<exists>pi po l'. mips32_pracc_exec h cl cd ni pin no pout cycle l
                           = Inr (ERROR_OK, pi, po, l')"
    then obtain ctx' l' where
      "pracc_loop h cycle c0 0 l = Inr (ERROR_OK, ctx', l')"
      unfolding exec_ok assms(2) by blast
    from loop_ok_stops [OF cy assms(1) refl this] show "\<exists>k. stops_at h c0 accs k"
      by (auto simp: stops_at_def)
  next
    assume "\<exists>k. stops_at h c0 accs k"
    then obtain k where "stops_at h c0 accs k" by blast
    from exec_stops [OF assms(1) cy this [unfolded assms(2)]]
    show "\<exists>pi po l'. mips32_pracc_exec h cl cd ni pin no pout cycle l
                           = Inr (ERROR_OK, pi, po, l')"
      by blast
  qed
next
  fix k
  assume cy: "cycle \<noteq> 0" and st: "stops_at h c0 accs k"
  from exec_stops [OF assms(1) cy st [unfolded assms(2)]]
  show "\<exists>pi po ds. mips32_pracc_exec h cl cd ni pin no pout cycle l
                     = Inr (ERROR_OK, pi, po,
                         taken h (accs ! k) (drop (Suc k) accs) (2 * k + 1)
                           (concat (map2 (served_ops h (ejtag_ctrl l)) (take k accs) ds)
                            @ seen_ops (ejtag_ctrl l) (accs ! k)) l)
                   \<and> list_all2 (fetched h c0) (take k accs) ds"
    unfolding assms(2) .
next
  assume cy: "cycle = 0"
  show "(\<exists>pi po l'. mips32_pracc_exec h cl cd ni pin no pout cycle l
                           = Inr (ERROR_OK, pi, po, l'))
        = (accs \<noteq> [] \<and> acceptable h c0 (hd accs))"
  proof
    assume "\<exists>pi po l'. mips32_pracc_exec h cl cd ni pin no pout cycle l
                           = Inr (ERROR_OK, pi, po, l')"
    then obtain pi po l' where
      "mips32_pracc_exec h cl cd ni pin no pout 0 l = Inr (ERROR_OK, pi, po, l')"
      unfolding cy by blast
    from exec_single_ok [OF assms(1) this] show "accs \<noteq> [] \<and> acceptable h c0 (hd accs)"
      unfolding assms(2) .
  next
    assume "accs \<noteq> [] \<and> acceptable h c0 (hd accs)"
    then have "accs \<noteq> []" "acceptable h (start_context cl cd ni pin no pout) (hd accs)"
      unfolding assms(2) by simp_all
    from exec_single [OF assms(1) this]
    show "\<exists>pi po l'. mips32_pracc_exec h cl cd ni pin no pout cycle l
                           = Inr (ERROR_OK, pi, po, l')"
      unfolding cy by blast
  qed
next
  assume cy: "cycle = 0" and "accs \<noteq> [] \<and> acceptable h c0 (hd accs)"
  then have "accs \<noteq> []" "acceptable h (start_context cl cd ni pin no pout) (hd accs)"
    unfolding assms(2) by simp_all
  from exec_single [OF assms(1) this]
  show "\<exists>pi po d. mips32_pracc_exec h cl cd ni pin no pout cycle l
                     = Inr (ERROR_OK, pi, po,
                         taken h (hd accs) (tl accs) 2
                           (served_ops h (ejtag_ctrl l) (hd accs) d) l)
                   \<and> fetched h c0 (hd accs) d"
    unfolding assms(2) cy .
qed

text \<open>
  A run on the layout above: a read at \<^verbatim>\<open>MIPS32_PRACC_TEXT\<close> after one poll without PrAcc, a
  write of \<^verbatim>\<open>0xCAFE\<close> to the first output parameter, the second read at
  \<^verbatim>\<open>MIPS32_PRACC_TEXT\<close>, and a read that is never reached.
\<close>

definition example_accesses :: "access list" where
  "example_accesses =
     [\<lparr>acc_then = 100, acc_polls = [(0x0000C000, 350)], acc_ctrl = 0x0004C000,
       acc_addr = 0xFF200200, acc_data = 0\<rparr>,
      \<lparr>acc_then = 351, acc_polls = [], acc_ctrl = 0x000CC000,
       acc_addr = 0xFF202000, acc_data = 0xCAFE\<rparr>,
      \<lparr>acc_then = 352, acc_polls = [], acc_ctrl = 0x0004C000,
       acc_addr = 0xFF200200, acc_data = 0\<rparr>,
      \<lparr>acc_then = 353, acc_polls = [], acc_ctrl = 0x0004C000,
       acc_addr = 0xFF200204, acc_data = 0\<rparr>]"

definition example_target :: mips_ejtag where
  "example_target = (example_link (script example_h example_accesses))
     \<lparr>queue_answers := replicate 8 ERROR_OK, timeline := ticks example_accesses\<rparr>"

lemma example_presents: "presents example_h example_accesses example_target"
  by (simp add: presents_def example_target_def example_link_def example_accesses_def
      shown_def example_h_def list_all_iff in_time_def)

theorem pracc_exec_exit_witness:
  "(\<exists>pi po. mips32_pracc_exec example_h 2 [0x11, 0x22] 0 [] 1 [0] 1 example_target
      = Inr (ERROR_OK, pi, po,
          example_target
            \<lparr>scan_answers := [(ERROR_OK, 0x0004C000), (ERROR_OK, 0xFF200204)],
              queue_answers := replicate 3 ERROR_OK, timeline := [353], now := 352,
              ops := [Set_instr EJTAG_INST_CONTROL, Execute_queue,
                      Drscan_32 0x0004C000, Drscan_32 0x0000C000,
                      Set_instr EJTAG_INST_ADDRESS, Drscan_32 0,
                      Set_instr EJTAG_INST_DATA, Drscan_32_out 0x11,
                      Set_instr EJTAG_INST_CONTROL, Drscan_32_out 0x0000C000, Execute_queue,
                      Set_instr EJTAG_INST_CONTROL, Execute_queue, Drscan_32 0x0004C000,
                      Set_instr EJTAG_INST_ADDRESS, Drscan_32 0,
                      Set_instr EJTAG_INST_DATA, Drscan_32 0,
                      Set_instr EJTAG_INST_CONTROL, Drscan_32_out 0x0000C000, Execute_queue,
                      Set_instr EJTAG_INST_CONTROL, Execute_queue, Drscan_32 0x0004C000,
                      Set_instr EJTAG_INST_ADDRESS, Drscan_32 0]\<rparr>))
   \<and> (\<exists>pi po. mips32_pracc_exec example_h 2 [0x11, 0x22] 0 [] 1 [0] 0 example_target
      = Inr (ERROR_OK, pi, po,
          example_target
            \<lparr>scan_answers := drop 3 (scan_answers example_target),
              queue_answers := replicate 6 ERROR_OK, timeline := [351, 352, 353], now := 350,
              ops := [Set_instr EJTAG_INST_CONTROL, Execute_queue,
                      Drscan_32 0x0004C000, Drscan_32 0x0000C000,
                      Set_instr EJTAG_INST_ADDRESS, Drscan_32 0,
                      Set_instr EJTAG_INST_DATA, Drscan_32_out 0x11,
                      Set_instr EJTAG_INST_CONTROL, Drscan_32_out 0x0000C000,
                      Execute_queue]\<rparr>))"
proof -
  let ?c = "start_context 2 [0x11, 0x22] 0 [] 1 [0]"
  note ev = example_accesses_def example_h_def text_read_def is_write_def acceptable_def
    after_def in_arena_def arena_offset_def start_context_def fetched_def
  note run = example_target_def example_link_def example_accesses_def script_def
    answers_of_def is_write_def served_ops_def seen_ops_def service_ops_def example_h_def
    taken_def ticks_def ticks_of_def
  have st: "stops_at example_h ?c example_accesses 2"
    by (simp add: stops_at_def ev)
  have ac: "example_accesses \<noteq> [] \<and> acceptable example_h ?c (hd example_accesses)"
    by (simp add: ev)
  note ex = pracc_exec_exit [OF example_presents refl, where cl = 2 and cd = "[0x11, 0x22]"
      and ni = 0 and pin = "[]" and no = 1 and pout = "[0]"]
  have c1: "(1::int) \<noteq> 0" by simp
  from ex [where cycle = 1, THEN conjunct1, THEN mp, OF c1, THEN conjunct2, THEN spec,
      THEN mp, OF st]
  obtain pi po ds where
    r: "mips32_pracc_exec example_h 2 [0x11, 0x22] 0 [] 1 [0] 1 example_target
          = Inr (ERROR_OK, pi, po,
              taken example_h (example_accesses ! 2) (drop (Suc 2) example_accesses) (2 * 2 + 1)
                (concat (map2 (served_ops example_h (ejtag_ctrl example_target))
                              (take 2 example_accesses) ds)
                 @ seen_ops (ejtag_ctrl example_target) (example_accesses ! 2))
                example_target)"
    and f: "list_all2 (fetched example_h ?c) (take 2 example_accesses) ds"
    by blast
  from f obtain d where ds: "ds = [0x11, d]"
    by (auto simp: list_all2_Cons1 ev)
  from ex [where cycle = 0, THEN conjunct2, THEN mp, OF refl, THEN conjunct2, THEN mp, OF ac]
  obtain pi' po' d' where
    r': "mips32_pracc_exec example_h 2 [0x11, 0x22] 0 [] 1 [0] 0 example_target
          = Inr (ERROR_OK, pi', po',
              taken example_h (hd example_accesses) (tl example_accesses) 2
                (served_ops example_h (ejtag_ctrl example_target) (hd example_accesses) d')
                example_target)"
    and f': "fetched example_h ?c (hd example_accesses) d'"
    by blast
  from f' have d': "d' = 0x11" by (simp add: ev)
  have "mips32_pracc_exec example_h 2 [0x11, 0x22] 0 [] 1 [0] 1 example_target
      = Inr (ERROR_OK, pi, po,
          example_target
            \<lparr>scan_answers := [(ERROR_OK, 0x0004C000), (ERROR_OK, 0xFF200204)],
              queue_answers := replicate 3 ERROR_OK, timeline := [353], now := 352,
              ops := [Set_instr EJTAG_INST_CONTROL, Execute_queue,
                      Drscan_32 0x0004C000, Drscan_32 0x0000C000,
                      Set_instr EJTAG_INST_ADDRESS, Drscan_32 0,
                      Set_instr EJTAG_INST_DATA, Drscan_32_out 0x11,
                      Set_instr EJTAG_INST_CONTROL, Drscan_32_out 0x0000C000, Execute_queue,
                      Set_instr EJTAG_INST_CONTROL, Execute_queue, Drscan_32 0x0004C000,
                      Set_instr EJTAG_INST_ADDRESS, Drscan_32 0,
                      Set_instr EJTAG_INST_DATA, Drscan_32 0,
                      Set_instr EJTAG_INST_CONTROL, Drscan_32_out 0x0000C000, Execute_queue,
                      Set_instr EJTAG_INST_CONTROL, Execute_queue, Drscan_32 0x0004C000,
                      Set_instr EJTAG_INST_ADDRESS, Drscan_32 0]\<rparr>)"
    unfolding r ds by (simp add: run)
  moreover have "mips32_pracc_exec example_h 2 [0x11, 0x22] 0 [] 1 [0] 0 example_target
      = Inr (ERROR_OK, pi', po',
          example_target
            \<lparr>scan_answers := drop 3 (scan_answers example_target),
              queue_answers := replicate 6 ERROR_OK, timeline := [351, 352, 353], now := 350,
              ops := [Set_instr EJTAG_INST_CONTROL, Execute_queue,
                      Drscan_32 0x0004C000, Drscan_32 0x0000C000,
                      Set_instr EJTAG_INST_ADDRESS, Drscan_32 0,
                      Set_instr EJTAG_INST_DATA, Drscan_32_out 0x11,
                      Set_instr EJTAG_INST_CONTROL, Drscan_32_out 0x0000C000,
                      Execute_queue]\<rparr>)"
    unfolding r' d' by (simp add: run)
  ultimately show ?thesis by blast
qed

subsection \<open>Claim C9: the bounds of the debug stack\<close>

text \<open>
  C9 fails on the code: \<^verbatim>\<open>ctx->stack[--ctx->stack_offset]\<close> and
  \<^verbatim>\<open>ctx->stack[ctx->stack_offset++]\<close> are not guarded. On a target whose first access is a
  read at \<^verbatim>\<open>MIPS32_PRACC_STACK\<close> the pop runs at offset 0 and reads index -1.
\<close>

theorem pracc_pop_on_empty_stack:
  "pracc_run example_h 2 [0x11, 0x22] 0 [] 0 [] 1
     (example_link [(ERROR_OK, 0x00040000), (ERROR_OK, 0xFF204000)])
   = Inl (Bad_stack_index (- 1))"
  by (simp add: exec_defs link_defs example_h_def example_link_def)

subsection \<open>Claim C8: a working area that is too small\<close>

text \<open>
  C8: if the working area is smaller than \<^verbatim>\<open>MIPS32_FASTDATA_HANDLER_SIZE\<close>,
  \<^verbatim>\<open>mips32_pracc_fastdata_xfer\<close> returns \<^verbatim>\<open>ERROR_TARGET_RESOURCE_NOT_AVAILABLE\<close> and leaves the
  buffer and the link as they were: no operation is issued on the link (its record \<open>ops\<close> is
  unchanged) and no answer is consumed.
\<close>

theorem fastdata_xfer_small_area:
  assumes "wa_size source < MIPS32_FASTDATA_HANDLER_SIZE h"
  shows "mips32_pracc_fastdata_xfer h source write_t addr count buffer l
         = Inr (ERROR_TARGET_RESOURCE_NOT_AVAILABLE, buffer, l)"
  using assms by (simp add: mips32_pracc_fastdata_xfer_def)

theorem fastdata_xfer_small_area_witness:
  "mips32_pracc_fastdata_xfer example_h \<lparr>wa_address = 0x80000000, wa_size = 64\<rparr> 1 0xA0000000
     1024 (replicate 1024 0) (example_link [])
   = Inr (ERROR_TARGET_RESOURCE_NOT_AVAILABLE, replicate 1024 0, example_link [])"
  using fastdata_xfer_small_area [where source = "\<lparr>wa_address = 0x80000000, wa_size = 64\<rparr>"
      and h = example_h and write_t = 1 and addr = "0xA0000000" and count = 1024
      and buffer = "replicate 1024 0" and l = "example_link []"]
  by (simp add: example_h_def)

subsection \<open>Claim C6: \<open>$15\<close> and COP0 DeSave in the stubs\<close>

lemmas stub_defs = read_u32_code_def read_mem32_code_def read_mem16_code_def read_mem8_code_def
  write_u32_code_def write_mem32_code_def write_mem16_code_def write_mem8_code_def
  read_regs_code_def write_regs_code_def

text \<open>
  C6, as stated, fails: the two register stubs do not begin by stashing \<open>$15\<close>.
  \<^verbatim>\<open>write_regs\<close> begins with \<^verbatim>\<open>LUI $2\<close> and loads the new \<open>$15\<close> before it stashes it;
  \<^verbatim>\<open>read_regs\<close> begins by stashing \<open>$2\<close>. Besides, the last word of the \<^verbatim>\<open>read_mem16\<close> stub
  is \<^verbatim>\<open>MFC0 15,30,0\<close>, which reads COP0 register 30 and not DeSave.
\<close>

theorem register_stubs_start_otherwise:
  "hd (write_regs_code example_h) \<noteq> MIPS32_MTC0 15 31 0
   \<and> hd (read_regs_code example_h) \<noteq> MIPS32_MTC0 15 31 0
   \<and> last (read_mem16_code example_h) \<noteq> MIPS32_MFC0 15 31 0"
  by (simp add: stub_defs example_h_def MIPS32_MTC0_def MIPS32_MFC0_def MIPS32_LUI_def
      MIPS32_R_INST_def MIPS32_I_INST_def MIPS32_OP_COP0_def MIPS32_COP0_MT_def
      MIPS32_COP0_MF_def MIPS32_OP_LUI_def)

text \<open>
  C6 (amended): each of the eight memory stubs has \<^verbatim>\<open>MTC0 15,31,0\<close> (stash \<open>$15\<close> in DeSave)
  as its first word; the register stubs stash \<open>$15\<close> later (\<^verbatim>\<open>read_regs\<close> at word 7,
  \<^verbatim>\<open>write_regs\<close> at word 4); and the last word of every stub other than \<^verbatim>\<open>read_mem16\<close>, the
  delay slot of the branch back to the start, is \<^verbatim>\<open>MFC0 15,31,0\<close>, which restores \<open>$15\<close> from
  DeSave.
\<close>

theorem stubs_stash_and_restore:
  "hd (read_u32_code h) = MIPS32_MTC0 15 31 0 \<and> hd (read_mem32_code h) = MIPS32_MTC0 15 31 0
   \<and> hd (read_mem16_code h) = MIPS32_MTC0 15 31 0 \<and> hd (read_mem8_code h) = MIPS32_MTC0 15 31 0
   \<and> hd (write_u32_code h) = MIPS32_MTC0 15 31 0 \<and> hd (write_mem32_code h) = MIPS32_MTC0 15 31 0
   \<and> hd (write_mem16_code h) = MIPS32_MTC0 15 31 0 \<and> hd (write_mem8_code h) = MIPS32_MTC0 15 31 0
   \<and> read_regs_code h ! 7 = MIPS32_MTC0 15 31 0 \<and> write_regs_code h ! 4 = MIPS32_MTC0 15 31 0
   \<and> last (read_u32_code h) = MIPS32_MFC0 15 31 0 \<and> last (read_mem32_code h) = MIPS32_MFC0 15 31 0
   \<and> last (read_mem8_code h) = MIPS32_MFC0 15 31 0
   \<and> last (write_u32_code h) = MIPS32_MFC0 15 31 0 \<and> last (write_mem32_code h) = MIPS32_MFC0 15 31 0
   \<and> last (write_mem16_code h) = MIPS32_MFC0 15 31 0 \<and> last (write_mem8_code h) = MIPS32_MFC0 15 31 0
   \<and> last (read_regs_code h) = MIPS32_MFC0 15 31 0 \<and> last (write_regs_code h) = MIPS32_MFC0 15 31 0"
  by (simp add: stub_defs)


subsection \<open>Claim C5: the block-size policy\<close>














end
